theory Spec2Isabelle
  imports Complex_Main
begin

section \<open>The store and the container record\<close>

text \<open>
  The container of \<^verbatim>\<open>Unordered_Map.h\<close> is a bucket array of node pointers over one
  circular, singly linked list of heap nodes that ends in a sentinel (\<^verbatim>\<open>Elist\<close>).
  A pointer \<^verbatim>\<open>Node*\<close> is an address; address \<open>0\<close> is \<^verbatim>\<open>nullptr\<close> and is never
  allocated. Each field of \<^verbatim>\<open>struct Node\<close> is a partial map from addresses to the
  field's contents: a field that was never written (every field at \<open>0\<close>, the payload of
  the sentinel, which is raw storage, the link of a node fresh from its constructor) is
  unmapped, and reading it is undefined behaviour. The nodes of a container are owned
  by it alone, so the three field maps are part of the container's record, together
  with the allocator's next unused address.

  \<^verbatim>\<open>size_t\<close> is modelled by \<open>nat\<close>: a counter or a bucket count that wraps needs
  \<open>2 ^ 63\<close> buckets or \<open>2 ^ 64\<close> nodes, more than the address space holds. The
  \<^verbatim>\<open>double\<close> load factor is modelled by \<open>real\<close>. The hash function
  \<^verbatim>\<open>std::hash<Key>\<close> is the field \<open>hasher\<close>, any function into \<open>nat\<close>.
\<close>

type_synonym addr = nat

datatype error =
    DuplicateKey      \<comment> \<open>\<^verbatim>\<open>std::invalid_argument("Key repeat")\<close>\<close>
  | KeyNotFound       \<comment> \<open>\<^verbatim>\<open>std::out_of_range\<close> of \<^verbatim>\<open>erase\<close> and \<^verbatim>\<open>at\<close>\<close>
  | InvalidState      \<comment> \<open>\<^verbatim>\<open>std::invalid_argument\<close> of \<^verbatim>\<open>__hash\<close> on zero buckets\<close>
  | InvalidArgument   \<comment> \<open>\<^verbatim>\<open>std::invalid_argument\<close> of \<^verbatim>\<open>reserve\<close> and \<^verbatim>\<open>max_load_factor\<close>\<close>
  | Terminate         \<comment> \<open>an exception leaves a \<^verbatim>\<open>noexcept\<close> function: \<^verbatim>\<open>std::terminate\<close>\<close>
  | UB                \<comment> \<open>undefined behaviour: invalid read, index out of bounds, \<^verbatim>\<open>% 0\<close>\<close>

text \<open>
  A member function that changes the container returns the outcome together with the
  container it leaves behind, \<open>(Inl e, m)\<close> when it stops with the error \<open>e\<close> in the
  state \<open>m\<close> and \<open>(Inr r, m)\<close> when it returns \<open>r\<close>; a \<^verbatim>\<open>const\<close> one returns the
  outcome alone. A loop follows links that nothing bounds, so each loop is a partial
  function, and every function that runs one has an \<open>option\<close> around its result:
  \<open>None\<close> is a call that never returns.
\<close>

record ('k, 'v) U_Map =
  next_node :: "addr \<rightharpoonup> addr"
  cached :: "addr \<rightharpoonup> nat"
  node_value :: "addr \<rightharpoonup> 'k \<times> 'v"
  fresh :: addr
  Elist :: addr
  m_size :: nat
  buckets_count :: nat
  buckets :: "addr list option"
  hasher :: "'k \<Rightarrow> nat"
  m_max_load_factor :: real

text \<open>Reading and writing \<^verbatim>\<open>a[i]\<close>; \<open>None\<close> is an index out of bounds.\<close>

definition arr_read :: "addr list \<Rightarrow> nat \<Rightarrow> addr option" where
  "arr_read a i = (if i < length a then Some (a ! i) else None)"

definition arr_write :: "addr list \<Rightarrow> nat \<Rightarrow> addr \<Rightarrow> addr list option" where
  "arr_write a i p = (if i < length a then Some (a[i := p]) else None)"

text \<open>The same on the member \<^verbatim>\<open>buckets\<close>, which is \<open>None\<close> when it is \<^verbatim>\<open>nullptr\<close>.\<close>

definition bucket_read :: "('k, 'v) U_Map \<Rightarrow> nat \<Rightarrow> addr option" where
  "bucket_read m i = (case buckets m of None \<Rightarrow> None | Some a \<Rightarrow> arr_read a i)"

definition bucket_write :: "('k, 'v) U_Map \<Rightarrow> nat \<Rightarrow> addr \<Rightarrow> ('k, 'v) U_Map option" where
  "bucket_write m i p =
     (case buckets m of None \<Rightarrow> None
      | Some a \<Rightarrow> (case arr_write a i p of None \<Rightarrow> None
                   | Some a' \<Rightarrow> Some (m\<lparr>buckets := Some a'\<rparr>)))"

text \<open>\<^verbatim>\<open>new Node(value, cache)\<close>: the constructor leaves \<^verbatim>\<open>next_node\<close> unset.\<close>

definition new_Node :: "('k, 'v) U_Map \<Rightarrow> 'k \<times> 'v \<Rightarrow> nat \<Rightarrow> addr \<times> ('k, 'v) U_Map" where
  "new_Node m v cache =
     (fresh m, m\<lparr>cached := (cached m)(fresh m \<mapsto> cache),
                 node_value := (node_value m)(fresh m \<mapsto> v),
                 fresh := Suc (fresh m)\<rparr>)"

text \<open>\<^verbatim>\<open>delete node\<close>.\<close>

definition delete_Node :: "('k, 'v) U_Map \<Rightarrow> addr \<Rightarrow> ('k, 'v) U_Map" where
  "delete_Node m p =
     m\<lparr>next_node := (next_node m)(p := None),
       cached := (cached m)(p := None),
       node_value := (node_value m)(p := None)\<rparr>"

section \<open>Construction\<close>

text \<open>
  \<^verbatim>\<open>__create_Elist\<close> allocates raw storage of the size of a node and sets its link to
  itself: the other fields of the sentinel stay unset.
\<close>

definition create_Elist :: "('k, 'v) U_Map \<Rightarrow> ('k, 'v) U_Map" where
  "create_Elist m =
     m\<lparr>next_node := (next_node m)(fresh m \<mapsto> fresh m),
       Elist := fresh m,
       fresh := Suc (fresh m)\<rparr>"

text \<open>The constructor; \<^verbatim>\<open>num_of_buckets\<close> defaults to 10 and the max load factor is 1.\<close>

definition Unordered_Map :: "nat \<Rightarrow> ('k \<Rightarrow> nat) \<Rightarrow> ('k, 'v) U_Map" where
  "Unordered_Map num_of_buckets h =
     create_Elist
       \<lparr>next_node = Map.empty, cached = Map.empty, node_value = Map.empty,
        fresh = 1, Elist = 0, m_size = 0, buckets_count = num_of_buckets,
        buckets = Some (replicate num_of_buckets 0), hasher = h,
        m_max_load_factor = 1\<rparr>"

text \<open>
  The move constructor takes over the bucket array, the sentinel and the nodes, and
  sets the two pointers of the source to \<^verbatim>\<open>nullptr\<close>, nothing else: the pair is
  the new container and what is left of the source.
\<close>

definition move_ctor :: "('k, 'v) U_Map \<Rightarrow> ('k, 'v) U_Map \<times> ('k, 'v) U_Map" where
  "move_ctor other =
     (other,
      other\<lparr>buckets := None, Elist := 0\<rparr>)"

section \<open>Private operations\<close>

definition priv_hash :: "('k, 'v) U_Map \<Rightarrow> 'k \<Rightarrow> error + nat" where
  "priv_hash m key =
     (if buckets_count m = 0 then Inl InvalidState
      else Inr (hasher m key mod buckets_count m))"

partial_function (option) find_in_bucket_loop ::
  "('k, 'v) U_Map \<Rightarrow> nat \<Rightarrow> 'k \<Rightarrow> addr \<Rightarrow> (error + bool) option" where
  "find_in_bucket_loop m buck key node =
     (if node = Elist m then Some (Inr False)
      else case cached m node of None \<Rightarrow> Some (Inl UB)
      | Some c \<Rightarrow>
          if c \<noteq> buck then Some (Inr False)
          else (case node_value m node of None \<Rightarrow> Some (Inl UB)
          | Some kv \<Rightarrow>
              if fst kv = key then Some (Inr True)
              else (case next_node m node of None \<Rightarrow> Some (Inl UB)
                    | Some n \<Rightarrow> find_in_bucket_loop m buck key n)))"

declare find_in_bucket_loop.simps [code]

definition priv_find_in_bucket ::
  "('k, 'v) U_Map \<Rightarrow> nat \<Rightarrow> 'k \<Rightarrow> (error + bool) option" where
  "priv_find_in_bucket m buck key =
     (case bucket_read m buck of None \<Rightarrow> Some (Inl UB)
      | Some a \<Rightarrow>
          if a = 0 then Some (Inr False)
          else (case next_node m a of None \<Rightarrow> Some (Inl UB)
                | Some node \<Rightarrow> find_in_bucket_loop m buck key node))"

partial_function (option) find_loop ::
  "('k, 'v) U_Map \<Rightarrow> nat \<Rightarrow> 'k \<Rightarrow> addr \<Rightarrow> (error + addr) option" where
  "find_loop m buck key node =
     (if node = Elist m then Some (Inr (Elist m))
      else case cached m node of None \<Rightarrow> Some (Inl UB)
      | Some c \<Rightarrow>
          if c \<noteq> buck then Some (Inr (Elist m))
          else (case node_value m node of None \<Rightarrow> Some (Inl UB)
          | Some kv \<Rightarrow>
              if fst kv = key then Some (Inr node)
              else (case next_node m node of None \<Rightarrow> Some (Inl UB)
                    | Some n \<Rightarrow> find_loop m buck key n)))"

declare find_loop.simps [code]

text \<open>
  \<^verbatim>\<open>__find\<close> is \<^verbatim>\<open>noexcept\<close> and calls \<^verbatim>\<open>__hash\<close>, which throws on zero buckets:
  the exception cannot leave \<^verbatim>\<open>__find\<close>, and the program is terminated.
\<close>

definition priv_find :: "('k, 'v) U_Map \<Rightarrow> 'k \<Rightarrow> (error + addr) option" where
  "priv_find m key =
     (case priv_hash m key of Inl e \<Rightarrow> Some (Inl Terminate)
      | Inr buck \<Rightarrow>
          (case bucket_read m buck of None \<Rightarrow> Some (Inl UB)
           | Some a \<Rightarrow>
               if a = 0 then Some (Inr (Elist m))
               else (case next_node m a of None \<Rightarrow> Some (Inl UB)
                     | Some node \<Rightarrow> find_loop m buck key node)))"

text \<open>
  The two splices. Every store to a node field goes to a node that was read just
  before or that is fresh, so the stores themselves are plain map updates.
\<close>

definition priv_insert_in_empty_bucket ::
  "('k, 'v) U_Map \<Rightarrow> nat \<Rightarrow> addr \<Rightarrow> error + ('k, 'v) U_Map" where
  "priv_insert_in_empty_bucket m buck insert_node =
     (case next_node m (Elist m) of None \<Rightarrow> Inl UB
      | Some first \<Rightarrow>
          let m1 = m\<lparr>next_node := (next_node m)(insert_node \<mapsto> first)\<rparr>;
              m2 = m1\<lparr>next_node := (next_node m1)(Elist m1 \<mapsto> insert_node)\<rparr>
          in (case bucket_write m2 buck (Elist m2) of None \<Rightarrow> Inl UB
              | Some m3 \<Rightarrow>
                  (case next_node m3 insert_node of None \<Rightarrow> Inl UB
                   | Some nn \<Rightarrow>
                       if nn \<noteq> Elist m3 then
                         (case cached m3 nn of None \<Rightarrow> Inl UB
                          | Some c \<Rightarrow>
                              (case bucket_write m3 c insert_node of None \<Rightarrow> Inl UB
                               | Some m4 \<Rightarrow> Inr m4))
                       else Inr m3)))"

definition priv_insert_in_nonempty_bucket ::
  "('k, 'v) U_Map \<Rightarrow> nat \<Rightarrow> addr \<Rightarrow> error + ('k, 'v) U_Map" where
  "priv_insert_in_nonempty_bucket m buck insert_node =
     (case bucket_read m buck of None \<Rightarrow> Inl UB
      | Some a \<Rightarrow>
          (case next_node m a of None \<Rightarrow> Inl UB
           | Some an \<Rightarrow>
               let m1 = m\<lparr>next_node := (next_node m)(insert_node \<mapsto> an)\<rparr>
               in (case bucket_read m1 buck of None \<Rightarrow> Inl UB
                   | Some a' \<Rightarrow> Inr (m1\<lparr>next_node := (next_node m1)(a' \<mapsto> insert_node)\<rparr>))))"

text \<open>
  The loop of \<^verbatim>\<open>__rehash\<close>: \<open>new_buckets\<close> is the local array, \<open>nxt\<close> the local
  \<^verbatim>\<open>next\<close>. The result is the filled array.
\<close>

partial_function (option) rehash_loop ::
  "('k, 'v) U_Map \<Rightarrow> nat \<Rightarrow> addr list \<Rightarrow> addr \<Rightarrow> ((error + addr list) \<times> ('k, 'v) U_Map) option"
where
  "rehash_loop m new_b_count new_buckets nxt =
     (if nxt = Elist m then Some (Inr new_buckets, m)
      else
        let node = nxt in
        case next_node m node of None \<Rightarrow> Some (Inl UB, m)
        | Some nxt' \<Rightarrow>
        (case node_value m node of None \<Rightarrow> Some (Inl UB, m)
         | Some kv \<Rightarrow>
         if new_b_count = 0 then Some (Inl UB, m)
         else
           let buck = hasher m (fst kv) mod new_b_count;
               m1 = m\<lparr>cached := (cached m)(node \<mapsto> buck)\<rparr>
           in (case arr_read new_buckets buck of None \<Rightarrow> Some (Inl UB, m1)
               | Some a \<Rightarrow>
                 if a = 0 then
                   (case next_node m1 (Elist m1) of None \<Rightarrow> Some (Inl UB, m1)
                    | Some first \<Rightarrow>
                      let m2 = m1\<lparr>next_node := (next_node m1)(node \<mapsto> first)\<rparr>;
                          m3 = m2\<lparr>next_node := (next_node m2)(Elist m2 \<mapsto> node)\<rparr>
                      in (case arr_write new_buckets buck (Elist m3) of
                            None \<Rightarrow> Some (Inl UB, m3)
                          | Some nb1 \<Rightarrow>
                            (case next_node m3 node of None \<Rightarrow> Some (Inl UB, m3)
                             | Some nn \<Rightarrow>
                               if nn \<noteq> Elist m3 then
                                 (case cached m3 nn of None \<Rightarrow> Some (Inl UB, m3)
                                  | Some c \<Rightarrow>
                                    (case arr_write nb1 c node of
                                       None \<Rightarrow> Some (Inl UB, m3)
                                     | Some nb2 \<Rightarrow> rehash_loop m3 new_b_count nb2 nxt'))
                               else rehash_loop m3 new_b_count nb1 nxt')))
                 else
                   (case next_node m1 a of None \<Rightarrow> Some (Inl UB, m1)
                    | Some an \<Rightarrow>
                      let m2 = m1\<lparr>next_node := (next_node m1)(node \<mapsto> an)\<rparr>;
                          m3 = m2\<lparr>next_node := (next_node m2)(a \<mapsto> node)\<rparr>
                      in rehash_loop m3 new_b_count new_buckets nxt'))))"

declare rehash_loop.simps [code]

definition priv_rehash ::
  "('k, 'v) U_Map \<Rightarrow> nat \<Rightarrow> ((error + unit) \<times> ('k, 'v) U_Map) option" where
  "priv_rehash m new_b_count =
     (case next_node m (Elist m) of None \<Rightarrow> Some (Inl UB, m)
      | Some nxt \<Rightarrow>
          let m1 = m\<lparr>next_node := (next_node m)(Elist m \<mapsto> Elist m)\<rparr>
          in (case rehash_loop m1 new_b_count (replicate new_b_count 0) nxt of
                None \<Rightarrow> None
              | Some (Inl e, m2) \<Rightarrow> Some (Inl e, m2)
              | Some (Inr nb, m2) \<Rightarrow>
                  Some (Inr (), m2\<lparr>buckets_count := new_b_count, buckets := Some nb\<rparr>)))"

section \<open>Insertion, removal, clearing, reservation\<close>

text \<open>
  In the header \<^verbatim>\<open>insert\<close>, \<^verbatim>\<open>erase\<close>, \<^verbatim>\<open>clear\<close> and \<^verbatim>\<open>reserve\<close> follow the
  private helpers with no access specifier of their own; they are modelled as the
  operations their comments document.

  \<^verbatim>\<open>insert\<close> returns the iterator, that is the address of the inserted node. The
  quotient \<^verbatim>\<open>_size / buckets_count\<close> divides two \<^verbatim>\<open>size_t\<close>: it is the whole
  quotient, converted to \<^verbatim>\<open>double\<close> for the comparison.
\<close>

definition insert_um ::
  "('k, 'v) U_Map \<Rightarrow> 'k \<times> 'v \<Rightarrow> ((error + addr) \<times> ('k, 'v) U_Map) option" where
  "insert_um m v =
     (case priv_hash m (fst v) of Inl e \<Rightarrow> Some (Inl e, m)
      | Inr buck \<Rightarrow>
        (case priv_find_in_bucket m buck (fst v) of None \<Rightarrow> None
         | Some (Inl e) \<Rightarrow> Some (Inl e, m)
         | Some (Inr key_exist) \<Rightarrow>
           if key_exist then Some (Inl DuplicateKey, m)
           else
             let (insert_node, m1) = new_Node m v buck in
             (case bucket_read m1 buck of None \<Rightarrow> Some (Inl UB, m1)
              | Some a \<Rightarrow>
                (case (if a = 0 then priv_insert_in_empty_bucket m1 buck insert_node
                       else priv_insert_in_nonempty_bucket m1 buck insert_node) of
                   Inl e \<Rightarrow> Some (Inl e, m1)
                 | Inr m2 \<Rightarrow>
                     let m3 = m2\<lparr>m_size := m_size m2 + 1\<rparr> in
                     if m_max_load_factor m3 \<le> real (m_size m3 div buckets_count m3) then
                       (case priv_rehash m3 (buckets_count m3 * 2) of None \<Rightarrow> None
                        | Some (Inl e, m4) \<Rightarrow> Some (Inl e, m4)
                        | Some (Inr u, m4) \<Rightarrow> Some (Inr insert_node, m4))
                     else Some (Inr insert_node, m3)))))"

text \<open>
  The test \<^verbatim>\<open>before == Elist || before->cached != buck\<close>, which \<^verbatim>\<open>erase\<close> makes in
  two places; \<open>None\<close> is the invalid read of \<^verbatim>\<open>before->cached\<close>.
\<close>

definition before_outside :: "('k, 'v) U_Map \<Rightarrow> nat \<Rightarrow> addr \<Rightarrow> bool option" where
  "before_outside m buck before =
     (if before = Elist m then Some True
      else (case cached m before of None \<Rightarrow> None | Some c \<Rightarrow> Some (c \<noteq> buck)))"

text \<open>The body of \<^verbatim>\<open>erase\<close> for the node that holds the key, up to \<^verbatim>\<open>return\<close>.\<close>

definition erase_found ::
  "('k, 'v) U_Map \<Rightarrow> nat \<Rightarrow> addr \<Rightarrow> addr \<Rightarrow> error + ('k, 'v) U_Map" where
  "erase_found m buck before node =
     (case next_node m node of None \<Rightarrow> Inl UB
      | Some nn0 \<Rightarrow>
        let m1 = m\<lparr>next_node := (next_node m)(before \<mapsto> nn0)\<rparr> in
        (case next_node m1 node of None \<Rightarrow> Inl UB
         | Some nn \<Rightarrow>
           (case (if nn = Elist m1 then
                    (case before_outside m1 buck before of None \<Rightarrow> None
                     | Some True \<Rightarrow> bucket_write m1 buck 0
                     | Some False \<Rightarrow> Some m1)
                  else
                    (case cached m1 nn of None \<Rightarrow> None
                     | Some cn \<Rightarrow>
                       if cn \<noteq> buck then
                         (case bucket_write m1 cn before of None \<Rightarrow> None
                          | Some m2 \<Rightarrow>
                            (case before_outside m2 buck before of None \<Rightarrow> None
                             | Some True \<Rightarrow> bucket_write m2 buck 0
                             | Some False \<Rightarrow> Some m2))
                       else Some m1)) of
              None \<Rightarrow> Inl UB
            | Some m3 \<Rightarrow>
                let m4 = delete_Node m3 node
                in Inr (m4\<lparr>m_size := m_size m4 - 1\<rparr>))))"

partial_function (option) erase_loop ::
  "('k, 'v) U_Map \<Rightarrow> nat \<Rightarrow> 'k \<Rightarrow> addr \<Rightarrow> addr \<Rightarrow> ((error + unit) \<times> ('k, 'v) U_Map) option"
where
  "erase_loop m buck key before node =
     (if node = Elist m then Some (Inl KeyNotFound, m)
      else case cached m node of None \<Rightarrow> Some (Inl UB, m)
      | Some c \<Rightarrow>
          if c \<noteq> buck then Some (Inl KeyNotFound, m)
          else (case node_value m node of None \<Rightarrow> Some (Inl UB, m)
          | Some kv \<Rightarrow>
              if fst kv = key then
                (case erase_found m buck before node of Inl e \<Rightarrow> Some (Inl e, m)
                 | Inr m' \<Rightarrow> Some (Inr (), m'))
              else (case next_node m node of None \<Rightarrow> Some (Inl UB, m)
                    | Some n \<Rightarrow> erase_loop m buck key node n)))"

declare erase_loop.simps [code]

text \<open>
  \<^verbatim>\<open>erase\<close> reads \<^verbatim>\<open>buckets[buck]->next_node\<close> with no test of \<^verbatim>\<open>buckets[buck]\<close>:
  on an empty bucket that is a read through \<^verbatim>\<open>nullptr\<close>.
\<close>

definition erase :: "('k, 'v) U_Map \<Rightarrow> 'k \<Rightarrow> ((error + unit) \<times> ('k, 'v) U_Map) option" where
  "erase m key =
     (case priv_hash m key of Inl e \<Rightarrow> Some (Inl e, m)
      | Inr buck \<Rightarrow>
        (case bucket_read m buck of None \<Rightarrow> Some (Inl UB, m)
         | Some before \<Rightarrow>
           (case next_node m before of None \<Rightarrow> Some (Inl UB, m)
            | Some node \<Rightarrow> erase_loop m buck key before node)))"

partial_function (option) clear_loop ::
  "('k, 'v) U_Map \<Rightarrow> addr \<Rightarrow> ((error + unit) \<times> ('k, 'v) U_Map) option" where
  "clear_loop m node =
     (if node = Elist m then Some (Inr (), m)
      else
        let temp = node in
        case next_node m temp of None \<Rightarrow> Some (Inl UB, m)
        | Some node' \<Rightarrow>
          (case cached m temp of None \<Rightarrow> Some (Inl UB, m)
           | Some c \<Rightarrow>
             (case bucket_write m c 0 of None \<Rightarrow> Some (Inl UB, m)
              | Some m1 \<Rightarrow> clear_loop (delete_Node m1 temp) node')))"

declare clear_loop.simps [code]

definition clear :: "('k, 'v) U_Map \<Rightarrow> ((error + unit) \<times> ('k, 'v) U_Map) option" where
  "clear m =
     (if Elist m = 0 then Some (Inr (), m)
      else case next_node m (Elist m) of None \<Rightarrow> Some (Inl UB, m)
      | Some node \<Rightarrow>
        (case clear_loop m node of None \<Rightarrow> None
         | Some (Inl e, m1) \<Rightarrow> Some (Inl e, m1)
         | Some (Inr u, m1) \<Rightarrow>
             Some (Inr (), m1\<lparr>next_node := (next_node m1)(Elist m1 \<mapsto> Elist m1),
                              m_size := 0\<rparr>)))"

definition reserve ::
  "('k, 'v) U_Map \<Rightarrow> nat \<Rightarrow> ((error + unit) \<times> ('k, 'v) U_Map) option" where
  "reserve m new_buckets_count =
     (if new_buckets_count < buckets_count m then Some (Inl InvalidArgument, m)
      else priv_rehash m new_buckets_count)"

section \<open>Public operations\<close>

definition max_load_factor :: "('k, 'v) U_Map \<Rightarrow> real" where
  "max_load_factor m = m_max_load_factor m"

definition set_max_load_factor ::
  "('k, 'v) U_Map \<Rightarrow> real \<Rightarrow> (error + unit) \<times> ('k, 'v) U_Map" where
  "set_max_load_factor m f =
     (if f \<le> 0 then (Inl InvalidArgument, m)
      else (Inr (), m\<lparr>m_max_load_factor := f\<rparr>))"

definition size_um :: "('k, 'v) U_Map \<Rightarrow> nat" where
  "size_um m = m_size m"

definition empty_um :: "('k, 'v) U_Map \<Rightarrow> bool" where
  "empty_um m = (m_size m = 0)"

definition buckets_number :: "('k, 'v) U_Map \<Rightarrow> nat" where
  "buckets_number m = buckets_count m"

text \<open>
  Iterators hold a node address. \<open>begin_um\<close> reads \<^verbatim>\<open>Elist->next_node\<close>; \<open>deref\<close> is
  \<^verbatim>\<open>operator*\<close>, the pair stored in the node.
\<close>

definition begin_um :: "('k, 'v) U_Map \<Rightarrow> addr option" where
  "begin_um m = next_node m (Elist m)"

definition end_um :: "('k, 'v) U_Map \<Rightarrow> addr" where
  "end_um m = Elist m"

definition deref :: "('k, 'v) U_Map \<Rightarrow> addr \<Rightarrow> ('k \<times> 'v) option" where
  "deref m it = node_value m it"

definition contains_um :: "('k, 'v) U_Map \<Rightarrow> 'k \<Rightarrow> (error + bool) option" where
  "contains_um m key =
     (case priv_hash m key of Inl e \<Rightarrow> Some (Inl Terminate)
      | Inr buck \<Rightarrow> priv_find_in_bucket m buck key)"

definition find_um :: "('k, 'v) U_Map \<Rightarrow> 'k \<Rightarrow> (error + addr) option" where
  "find_um m key = priv_find m key"

text \<open>\<^verbatim>\<open>at\<close> returns a reference to the second component of the node's pair: the node.\<close>

definition at_um :: "('k, 'v) U_Map \<Rightarrow> 'k \<Rightarrow> (error + addr) option" where
  "at_um m key =
     (case priv_find m key of None \<Rightarrow> None
      | Some (Inl e) \<Rightarrow> Some (Inl e)
      | Some (Inr node) \<Rightarrow>
          if node = Elist m then Some (Inl KeyNotFound) else Some (Inr node))"

text \<open>\<^verbatim>\<open>operator[]\<close>; \<open>dflt\<close> is \<^verbatim>\<open>Value()\<close>.\<close>

definition index_op ::
  "('k, 'v) U_Map \<Rightarrow> 'k \<Rightarrow> 'v \<Rightarrow> ((error + addr) \<times> ('k, 'v) U_Map) option" where
  "index_op m key dflt =
     (case find_um m key of None \<Rightarrow> None
      | Some (Inl e) \<Rightarrow> Some (Inl e, m)
      | Some (Inr it) \<Rightarrow>
          if it = end_um m then insert_um m (key, dflt) else Some (Inr it, m))"

text \<open>
  \<^verbatim>\<open>operator==\<close>. The inner loop scans the other container from
  \<^verbatim>\<open>other.buckets[pos]->next_node\<close>, which is read with no test of
  \<^verbatim>\<open>other.buckets[pos]\<close>; it compares \<^verbatim>\<open>th->value.first\<close> of this container with
  the key of each node it meets.
\<close>

partial_function (option) equals_inner ::
  "('k, 'v) U_Map \<Rightarrow> ('k, 'v) U_Map \<Rightarrow> addr \<Rightarrow> nat \<Rightarrow> addr \<Rightarrow> (error + bool) option" where
  "equals_inner m other th pos ot =
     (if ot = Elist other then Some (Inr False)
      else case cached other ot of None \<Rightarrow> Some (Inl UB)
      | Some c \<Rightarrow>
          if c \<noteq> pos then Some (Inr False)
          else (case node_value m th of None \<Rightarrow> Some (Inl UB)
          | Some kv \<Rightarrow>
              (case node_value other ot of None \<Rightarrow> Some (Inl UB)
               | Some okv \<Rightarrow>
                   if fst kv = fst okv then Some (Inr True)
                   else (case next_node other ot of None \<Rightarrow> Some (Inl UB)
                         | Some n \<Rightarrow> equals_inner m other th pos n))))"

declare equals_inner.simps [code]

partial_function (option) equals_loop ::
  "('k, 'v) U_Map \<Rightarrow> ('k, 'v) U_Map \<Rightarrow> addr \<Rightarrow> (error + bool) option" where
  "equals_loop m other th =
     (if th = Elist m then Some (Inr True)
      else case cached m th of None \<Rightarrow> Some (Inl UB)
      | Some pos \<Rightarrow>
        (case bucket_read other pos of None \<Rightarrow> Some (Inl UB)
         | Some a \<Rightarrow>
           (case next_node other a of None \<Rightarrow> Some (Inl UB)
            | Some ot \<Rightarrow>
              (case equals_inner m other th pos ot of None \<Rightarrow> None
               | Some (Inl e) \<Rightarrow> Some (Inl e)
               | Some (Inr found) \<Rightarrow>
                   if \<not> found then Some (Inr False)
                   else (case next_node m th of None \<Rightarrow> Some (Inl UB)
                         | Some th' \<Rightarrow> equals_loop m other th')))))"

declare equals_loop.simps [code]

definition equals :: "('k, 'v) U_Map \<Rightarrow> ('k, 'v) U_Map \<Rightarrow> (error + bool) option" where
  "equals m other =
     (if m_size m \<noteq> m_size other then Some (Inr False)
      else case next_node m (Elist m) of None \<Rightarrow> Some (Inl UB)
      | Some th \<Rightarrow> equals_loop m other th)"

section \<open>The traversal and the invariant\<close>

text \<open>
  The traversal is what an iteration from \<^verbatim>\<open>begin()\<close> to \<^verbatim>\<open>end()\<close> visits: the nodes
  from the sentinel's successor on, following \<^verbatim>\<open>next_node\<close>, up to the sentinel.
  \<open>None\<close> is an iteration that meets an unset link or never comes back.
\<close>

partial_function (option) walk :: "(addr \<rightharpoonup> addr) \<Rightarrow> addr \<Rightarrow> addr \<Rightarrow> addr list option" where
  "walk nx e p =
     (if p = e then Some []
      else case nx p of None \<Rightarrow> None
           | Some q \<Rightarrow> Option.bind (walk nx e q) (\<lambda>r. Some (p # r)))"

declare walk.simps [code]

definition traversal :: "('k, 'v) U_Map \<Rightarrow> addr list option" where
  "traversal m =
     (case next_node m (Elist m) of None \<Rightarrow> None
      | Some p \<Rightarrow> walk (next_node m) (Elist m) p)"

text \<open>A list of addresses in which each node's link is the next element.\<close>

definition linked :: "(addr \<rightharpoonup> addr) \<Rightarrow> addr list \<Rightarrow> bool" where
  "linked nx l = successively (\<lambda>a b. nx a = Some b) l"

text \<open>
  What the anchor of bucket \<open>i\<close> has to be for a traversal \<open>xs\<close> that follows \<open>prev\<close>,
  with \<open>c\<close> giving the cached index of a node: the node before the first node of
  index \<open>i\<close>, and \<^verbatim>\<open>nullptr\<close> when there is none.
\<close>

fun anchor_of :: "(addr \<Rightarrow> nat) \<Rightarrow> addr \<Rightarrow> addr list \<Rightarrow> nat \<Rightarrow> addr" where
  "anchor_of c prev [] i = 0"
| "anchor_of c prev (x # xs) i = (if c x = i then prev else anchor_of c x xs i)"

text \<open>A list of indices in which equal indices are neighbours.\<close>

fun grouped :: "nat list \<Rightarrow> bool" where
  "grouped [] = True"
| "grouped (c # cs) = (c \<notin> set (dropWhile (\<lambda>d. d = c) cs) \<and> grouped cs)"

text \<open>
  The linked structure alone, over a sentinel \<open>e\<close>, links \<open>nx\<close>, cached indices \<open>c\<close>,
  \<open>n\<close> buckets with anchors \<open>bs\<close>, and the traversal \<open>xs\<close>: shared by the container at
  rest and by the array that \<^verbatim>\<open>__rehash\<close> is filling.
\<close>

definition core ::
  "addr \<Rightarrow> (addr \<rightharpoonup> addr) \<Rightarrow> (addr \<Rightarrow> nat) \<Rightarrow> nat \<Rightarrow> addr list \<Rightarrow> addr list \<Rightarrow> bool" where
  "core e nx c n bs xs \<longleftrightarrow>
     0 < e \<and> e \<notin> set xs \<and> 0 \<notin> set xs \<and> distinct xs \<and> linked nx (e # xs @ [e]) \<and>
     nx 0 = None \<and> (\<forall>x\<in>set xs. c x < n) \<and> bs = map (anchor_of c e xs) [0..<n] \<and> grouped (map c xs)"

definition cached_of :: "('k, 'v) U_Map \<Rightarrow> addr \<Rightarrow> nat" where
  "cached_of m x = the (cached m x)"

definition key_of :: "('k, 'v) U_Map \<Rightarrow> addr \<Rightarrow> 'k" where
  "key_of m x = fst (the (node_value m x))"

text \<open>
  The invariant of a container, checked on its traversal: the sentinel and the nodes
  are allocated, distinct and not null, address 0 carries no link, every node holds a
  pair and caches the bucket index of its key, no key occurs twice, the size is the
  number of nodes, the bucket array holds exactly the anchors, and the nodes of each
  bucket are neighbours.
\<close>

definition well_formed_list :: "('k, 'v) U_Map \<Rightarrow> addr list \<Rightarrow> bool" where
  "well_formed_list m xs \<longleftrightarrow>
     0 < Elist m \<and> Elist m < fresh m \<and> (\<forall>x\<in>set xs. 0 < x \<and> x < fresh m) \<and> distinct xs \<and>
     next_node m 0 = None \<and>
     (\<forall>x\<in>set xs. case node_value m x of None \<Rightarrow> False
        | Some kv \<Rightarrow> cached m x = Some (hasher m (fst kv) mod buckets_count m)) \<and>
     (xs \<noteq> [] \<longrightarrow> 0 < buckets_count m) \<and>
     distinct (map (key_of m) xs) \<and>
     m_size m = length xs \<and>
     buckets m = Some (map (anchor_of (cached_of m) (Elist m) xs) [0..<buckets_count m]) \<and>
     grouped (map (cached_of m) xs)"

definition invariant :: "('k, 'v) U_Map \<Rightarrow> bool" where
  "invariant m = (case traversal m of None \<Rightarrow> False | Some xs \<Rightarrow> well_formed_list m xs)"

definition well_formed :: "('k, 'v) U_Map \<Rightarrow> addr list \<Rightarrow> bool" where
  "well_formed m xs \<longleftrightarrow> traversal m = Some xs \<and> well_formed_list m xs"

text \<open>
  The run of bucket \<open>i\<close>: the nodes met from the successor of the bucket's anchor on,
  as long as the sentinel is not reached and the cached index is \<open>i\<close>.
\<close>

partial_function (option) run_from :: "('k, 'v) U_Map \<Rightarrow> nat \<Rightarrow> addr \<Rightarrow> addr list option" where
  "run_from m i p =
     (if p = Elist m then Some []
      else case cached m p of None \<Rightarrow> None
      | Some c \<Rightarrow>
          if c \<noteq> i then Some []
          else (case next_node m p of None \<Rightarrow> None
                | Some q \<Rightarrow> Option.bind (run_from m i q) (\<lambda>r. Some (p # r))))"

declare run_from.simps [code]

definition bucket_run :: "('k, 'v) U_Map \<Rightarrow> nat \<Rightarrow> addr list option" where
  "bucket_run m i =
     (case bucket_read m i of None \<Rightarrow> None
      | Some a \<Rightarrow> (case next_node m a of None \<Rightarrow> None | Some p \<Rightarrow> run_from m i p))"

text \<open>The nodes of a list whose key hashes to bucket \<open>i\<close>.\<close>

definition hashes_to :: "('k, 'v) U_Map \<Rightarrow> nat \<Rightarrow> addr \<Rightarrow> bool" where
  "hashes_to m i x =
     (case node_value m x of None \<Rightarrow> False
      | Some kv \<Rightarrow> hasher m (fst kv) mod buckets_count m = i)"

text \<open>
  The anchor invariant as the specification words it: for every bucket \<open>i\<close> with an
  anchor, the anchor is the node right before the run of \<open>i\<close> in the traversal (which
  starts at the sentinel), the run is one stretch of the traversal, and its nodes are
  exactly the nodes of the traversal whose key hashes to \<open>i\<close>. A bucket without an
  anchor is empty: no key in the traversal hashes to it.
\<close>

definition anchor_invariant :: "('k, 'v) U_Map \<Rightarrow> bool" where
  "anchor_invariant m \<longleftrightarrow>
     (\<exists>xs. traversal m = Some xs \<and>
        (\<forall>i<buckets_count m.
           case bucket_read m i of None \<Rightarrow> False
           | Some a \<Rightarrow>
               if a = 0 then \<forall>x\<in>set xs. \<not> hashes_to m i x
               else (\<exists>ys run zs. bucket_run m i = Some run \<and> run \<noteq> [] \<and>
                       Elist m # xs = ys @ a # run @ zs \<and>
                       set run = {x \<in> set xs. hashes_to m i x})))"

text \<open>
  The value a container holds for a key: the second component of the first node of the
  traversal that carries the key.
\<close>

definition lookup :: "('k, 'v) U_Map \<Rightarrow> 'k \<Rightarrow> 'v option" where
  "lookup m k =
     (case traversal m of None \<Rightarrow> None
      | Some xs \<Rightarrow>
          (case List.find (\<lambda>x. key_of m x = k) xs of None \<Rightarrow> None
           | Some x \<Rightarrow> map_option snd (node_value m x)))"

text \<open>Inserting the pairs of a list one after the other, up to the first failure.\<close>

fun insert_all ::
  "('k, 'v) U_Map \<Rightarrow> ('k \<times> 'v) list \<Rightarrow> ((error + unit) \<times> ('k, 'v) U_Map) option" where
  "insert_all m [] = Some (Inr (), m)"
| "insert_all m (kv # kvs) =
     (case insert_um m kv of None \<Rightarrow> None
      | Some (Inl e, m') \<Rightarrow> Some (Inl e, m')
      | Some (Inr it, m') \<Rightarrow> insert_all m' kvs)"

text \<open>
  The bucket count after \<open>k\<close> further insertions into \<open>bc\<close> buckets holding \<open>s\<close>
  entries, for a max load factor of 1.
\<close>

fun grow :: "nat \<Rightarrow> nat \<Rightarrow> nat \<Rightarrow> nat" where
  "grow bc s 0 = bc"
| "grow bc s (Suc k) = grow (if bc \<le> Suc s then bc * 2 else bc) (Suc s) k"

text \<open>
  A small container for concrete checks: three buckets, the identity as hash function,
  after the insertion of \<open>(0, 100)\<close> and \<open>(6, 106)\<close>, which both fall into bucket 0.
\<close>

definition two_in_three :: "(nat, nat) U_Map" where
  "two_in_three =
     (case insert_all (Unordered_Map 3 id) [(0, 100), (6, 106)] of
        Some (Inr u, m) \<Rightarrow> m
      | _ \<Rightarrow> Unordered_Map 3 id)"

lemma linked_simps [simp]:
  "linked nx []" "linked nx [a]"
  "linked nx (a # b # l) = (nx a = Some b \<and> linked nx (b # l))"
  by (simp_all add: linked_def)

lemma linked_Cons: "linked nx (a # l) = (l = [] \<or> nx a = Some (hd l) \<and> linked nx l)"
  by (cases l) auto

lemma linked_append:
  "linked nx (xs @ ys) =
     (linked nx xs \<and> linked nx ys \<and> (xs = [] \<or> ys = [] \<or> nx (last xs) = Some (hd ys)))"
  unfolding linked_def by (rule successively_append_iff)

lemma linked_upd:
  "a \<notin> set (butlast l) \<Longrightarrow> linked (nx(a := v)) l = linked nx l"
proof (induction l rule: induct_list012)
  case (3 x y zs)
  then show ?case by (auto split: if_splits)
qed simp_all

lemma walk_Some_iff:
  "walk nx e p = Some xs \<longleftrightarrow> e \<notin> set xs \<and> linked nx (xs @ [e]) \<and> p = hd (xs @ [e])"
proof (induction xs arbitrary: p)
  case Nil
  show ?case by (subst walk.simps) (auto split: option.splits simp: bind_eq_Some_conv)
next
  case (Cons x xs)
  have "walk nx e p = Some (x # xs) \<longleftrightarrow>
          p \<noteq> e \<and> p = x \<and> (\<exists>q. nx p = Some q \<and> walk nx e q = Some xs)"
    by (subst walk.simps) (auto split: option.splits simp: bind_eq_Some_conv)
  then show ?case
    unfolding Cons.IH by (cases xs) auto
qed

lemma traversal_Some_iff:
  "traversal m = Some xs \<longleftrightarrow>
     Elist m \<notin> set xs \<and> linked (next_node m) (Elist m # xs @ [Elist m])"
  by (cases xs) (auto simp: traversal_def walk_Some_iff split: option.splits)

lemma anchor_of_absent: "i \<notin> c ` set xs \<Longrightarrow> anchor_of c p xs i = 0"
  by (induction xs arbitrary: p) auto

lemma anchor_of_append:
  "anchor_of c p (ys @ zs) i =
     (if i \<in> c ` set ys then anchor_of c p ys i else anchor_of c (last (p # ys)) zs i)"
  by (induction ys arbitrary: p) auto

lemma anchor_of_prev: "xs = [] \<or> c (hd xs) \<noteq> i \<Longrightarrow> anchor_of c p xs i = anchor_of c q xs i"
  by (cases xs) auto

lemma anchor_of_cong: "(\<And>x. x \<in> set xs \<Longrightarrow> c x = d x) \<Longrightarrow> anchor_of c p xs i = anchor_of d p xs i"
  by (induction xs arbitrary: p) auto

lemma anchor_of_in: "anchor_of c p xs i \<in> insert 0 (insert p (set xs))"
proof (induction xs arbitrary: p)
  case (Cons x xs)
  from Cons[of x] show ?case by auto
qed simp

lemma anchor_of_nonzero:
  "p \<noteq> 0 \<Longrightarrow> 0 \<notin> set xs \<Longrightarrow> anchor_of c p xs i \<noteq> 0 \<longleftrightarrow> i \<in> c ` set xs"
  by (induction xs arbitrary: p) auto

lemma anchor_of_split:
  assumes "i \<in> c ` set xs"
  shows "\<exists>ys x zs. xs = ys @ x # zs \<and> c x = i \<and> i \<notin> c ` set ys \<and> anchor_of c p xs i = last (p # ys)"
  using assms
proof (induction xs arbitrary: p)
  case (Cons x xs)
  show ?case
  proof (cases "c x = i")
    case True
    then show ?thesis by (intro exI[of _ "[]"]) auto
  next
    case False
    with Cons.prems have "i \<in> c ` set xs" by auto
    from Cons.IH[OF this, of x] obtain ys y zs where
      *: "xs = ys @ y # zs" "c y = i" "i \<notin> c ` set ys" "anchor_of c x xs i = last (x # ys)"
      by blast
    show ?thesis
      using * False by (intro exI[of _ "x # ys"] exI[of _ y] exI[of _ zs]) auto
  qed
qed simp

lemma set_dropWhile_dup:
  "set (dropWhile P (ys @ b # b # zs)) = set (dropWhile P (ys @ b # zs))"
  by (induction ys) auto

lemma set_dropWhile_del:
  "set (dropWhile P (ys @ zs)) \<subseteq> set (dropWhile P (ys @ x # zs))"
proof (induction ys)
  case Nil
  show ?case using set_dropWhileD[of _ P zs] by auto
qed auto

lemma grouped_front: "b \<notin> set cs \<Longrightarrow> grouped cs \<Longrightarrow> grouped (b # cs)"
  using set_dropWhileD[of b _ cs] by auto

lemma grouped_dup: "grouped (ys @ b # zs) \<Longrightarrow> grouped (ys @ b # b # zs)"
  by (induction ys) (auto simp: set_dropWhile_dup)

lemma grouped_del: "grouped (ys @ x # zs) \<Longrightarrow> grouped (ys @ zs)"
proof (induction ys)
  case (Cons y ys)
  then show ?case using set_dropWhile_del[of "\<lambda>d. d = y" ys zs x] by auto
qed auto

lemma grouped_suffix: "grouped (ys @ zs) \<Longrightarrow> grouped zs"
  by (induction ys) auto

lemma dropWhile_mid: "a \<noteq> b \<Longrightarrow> set l2 \<subseteq> set (dropWhile (\<lambda>d. d = b) (l1 @ a # l2))"
  by (induction l1) auto

text \<open>no pattern b .. a .. b with a \<noteq> b\<close>

lemma grouped_no_return:
  "grouped (l0 @ b # l1 @ a # l2) \<Longrightarrow> a \<noteq> b \<Longrightarrow> b \<notin> set l2"
proof -
  assume g: "grouped (l0 @ b # l1 @ a # l2)" and ne: "a \<noteq> b"
  from grouped_suffix[OF g] have "b \<notin> set (dropWhile (\<lambda>d. d = b) (l1 @ a # l2))" by simp
  with dropWhile_mid[OF ne, of l2 l1] show ?thesis by auto
qed

lemma last_notin_butlast: "distinct l \<Longrightarrow> l \<noteq> [] \<Longrightarrow> last l \<notin> set (butlast l)"
  by (metis append_butlast_last_id distinct_append disjoint_iff list.set_intros(1) set_append
      Un_iff not_distinct_conv_prefix distinct.simps(2) distinct1_rotate rotate1.simps(2))

lemma core_nth: "core e nx c n bs xs \<Longrightarrow> i < n \<Longrightarrow> bs ! i = anchor_of c e xs i"
  by (simp add: core_def)

lemma core_length: "core e nx c n bs xs \<Longrightarrow> length bs = n"
  by (simp add: core_def)

lemma core_empty_bucket:
  "core e nx c n bs xs \<Longrightarrow> b < n \<Longrightarrow> bs ! b = 0 \<longleftrightarrow> b \<notin> c ` set xs"
  using anchor_of_nonzero[of e xs c b] by (auto simp: core_def)

lemma core_bucket:
  assumes "core e nx c n bs xs" "b < n" "bs ! b \<noteq> 0"
  shows "\<exists>ys l. xs = ys @ l \<and> l \<noteq> [] \<and> c (hd l) = b \<and> b \<notin> c ` set ys \<and>
           bs ! b = last (e # ys) \<and> nx (bs ! b) = Some (hd l) \<and> linked nx (l @ [e])"
proof -
  have "b \<in> c ` set xs" using core_empty_bucket[OF assms(1,2)] assms(3) by simp
  from anchor_of_split[OF this, of e] obtain ys x zs where
    *: "xs = ys @ x # zs" "c x = b" "b \<notin> c ` set ys" "anchor_of c e xs b = last (e # ys)"
    by blast
  from assms(1) have "linked nx ((e # ys) @ (x # zs @ [e]))"
    by (simp add: core_def *)
  from this[unfolded linked_append[of nx "e # ys" "x # zs @ [e]"]]
  have "nx (last (e # ys)) = Some x" "linked nx ((x # zs) @ [e])"
    by simp_all
  with * assms show ?thesis
    by (intro exI[of _ ys] exI[of _ "x # zs"]) (simp add: core_nth)
qed

lemma core_front:
  assumes "core e nx c n bs xs" "p \<notin> set xs" "p \<noteq> e" "p \<noteq> 0" "b < n" "b \<notin> c ` set xs"
  shows "core e (nx(p \<mapsto> hd (xs @ [e]), e \<mapsto> p)) (c(p := b)) n
           (if xs = [] then bs[b := e] else (bs[b := e])[c (hd xs) := p]) (p # xs)"
proof -
  let ?nx = "nx(p \<mapsto> hd (xs @ [e]), e \<mapsto> p)" and ?c = "c(p := b)"
  from assms(1) have e: "0 < e" "e \<notin> set xs" "0 \<notin> set xs" "distinct xs" "nx 0 = None"
    and l: "linked nx (e # xs @ [e])" and cn: "\<forall>x\<in>set xs. c x < n"
    and bs: "bs = map (anchor_of c e xs) [0..<n]" and g: "grouped (map c xs)"
    by (auto simp: core_def)
  have "linked ?nx (xs @ [e]) = linked nx (xs @ [e])"
    using e assms(2) by (simp add: linked_upd)
  moreover have "linked nx (xs @ [e])" using l by (simp add: linked_Cons)
  ultimately have 1: "linked ?nx (e # p # xs @ [e])"
    using assms(3) by (simp add: linked_Cons[of _ p])
  have mc: "map ?c xs = map c xs" using assms(2) by auto
  have 2: "grouped (map ?c (p # xs))"
    using g assms(6) by (simp add: mc del: grouped.simps) (rule grouped_front, auto)
  have 3: "(if xs = [] then bs[b := e] else (bs[b := e])[c (hd xs) := p])
             = map (anchor_of ?c e (p # xs)) [0..<n]" (is "?l = ?r")
  proof (rule nth_equalityI)
    show "length ?l = length ?r" by (simp add: bs)
  next
    fix i assume "i < length ?l"
    then have i: "i < n" by (simp add: bs split: if_splits)
    have a: "anchor_of ?c p xs i = anchor_of c p xs i"
      by (rule anchor_of_cong) (use assms(2) in auto)
    show "?l ! i = ?r ! i"
    proof (cases xs)
      case Nil
      then show ?thesis using i assms(5) by (simp add: bs nth_list_update)
    next
      case (Cons x xs')
      then have "c x \<noteq> b" "c x < n" using assms(6) cn by auto
      then show ?thesis using i assms(5) Cons a
        by (auto simp add: bs nth_list_update)
    qed
  qed
  show ?thesis
    unfolding core_def using e assms 1 2 3 cn by (auto simp del: grouped.simps)
qed

lemma core_splice:
  assumes "core e nx c n bs (ys @ l)" "l \<noteq> []" "c (hd l) = b" "b \<notin> c ` set ys"
      "p \<notin> set (ys @ l)" "p \<noteq> e" "p \<noteq> 0"
  shows "core e (nx(p \<mapsto> hd l, last (e # ys) \<mapsto> p)) (c(p := b)) n bs (ys @ p # l)"
proof -
  let ?a = "last (e # ys)"
  let ?nx = "nx(p \<mapsto> hd l, ?a \<mapsto> p)" and ?c = "c(p := b)"
  from assms(1) have e: "0 < e" "e \<notin> set (ys @ l)" "0 \<notin> set (ys @ l)" "distinct (ys @ l)"
      "nx 0 = None"
    and lk: "linked nx (e # (ys @ l) @ [e])" and cn: "\<forall>x\<in>set (ys @ l). c x < n"
    and bs: "bs = map (anchor_of c e (ys @ l)) [0..<n]" and g: "grouped (map c (ys @ l))"
    by (auto simp: core_def)
  obtain x l' where l: "l = x # l'" using assms(2) by (cases l) auto
  have d: "distinct (e # ys)" using e by auto
  have a1: "?a \<notin> set (butlast (e # ys))" using last_notin_butlast[OF d] by simp
  have a2: "?a \<notin> set l"
  proof (cases "ys = []")
    case True
    then show ?thesis using e by simp
  next
    case False
    then have "last ys \<in> set ys" by simp
    moreover have "set ys \<inter> set l = {}" using e by simp
    ultimately have "last ys \<notin> set l" by blast
    then show ?thesis using False by simp
  qed
  have a3: "?a \<in> set (e # ys)" by (rule last_in_set) simp
  have pa: "p \<noteq> ?a" using assms(5,6) a3 by auto
  have a0: "?a \<noteq> 0" using a3 e by (metis Un_iff gr_implies_not0 set_ConsD set_append)
  have p1: "p \<notin> set (butlast (e # ys))" using assms(5,6) by (auto dest: in_set_butlastD)
  from lk have "linked nx ((e # ys) @ (l @ [e]))" by simp
  from this[unfolded linked_append[of nx "e # ys" "l @ [e]"]]
  have l1: "linked nx (e # ys)" and l2: "linked nx (l @ [e])"
    by simp_all
  have "linked ?nx (e # ys)"
    using l1 linked_upd[OF a1, of "nx(p \<mapsto> hd l)" "Some p"] linked_upd[OF p1, of nx "Some (hd l)"]
    by simp
  moreover have "linked ?nx (l @ [e])"
    using l2 a2 assms(5) by (simp add: linked_upd butlast_append)
  ultimately have 1: "linked ?nx (e # (ys @ p # l) @ [e])"
    using pa linked_append[of ?nx "e # ys" "p # l @ [e]"]
    by (simp add: linked_Cons[of _ p] l)
  have mc: "map ?c ys = map c ys" "map ?c l' = map c l'" "?c x = b"
    using assms(3,5) l by auto
  have 2: "grouped (map ?c (ys @ p # l))"
    using grouped_dup[of "map c ys" b "map c l'"] g assms(3) by (simp add: l mc del: grouped.simps)
  have 3: "anchor_of ?c e (ys @ p # l) i = anchor_of c e (ys @ l) i" for i
  proof -
    have c1: "anchor_of ?c q ys i = anchor_of c q ys i" for q
      by (rule anchor_of_cong) (use assms(5) in auto)
    have c2: "anchor_of ?c q l' i = anchor_of c q l' i" for q
      by (rule anchor_of_cong) (use assms(5) l in auto)
    have c3: "?c ` set ys = c ` set ys" using assms(5) by auto
    show ?thesis
      unfolding anchor_of_append c3 using assms(3,5) by (auto simp: l c1 c2)
  qed
  show ?thesis
    unfolding core_def using e assms 1 2 cn a0 by (auto simp: bs 3 simp del: grouped.simps)
qed

lemma grouped_before:
  assumes "grouped (map c (ys @ x # zs))" "ys \<noteq> []" "c (last ys) \<noteq> c x"
  shows "c x \<notin> c ` set ys"
proof
  assume "c x \<in> c ` set ys"
  then obtain y where y: "y \<in> set ys" "c y = c x" by auto
  from assms(2) obtain ys' w where w: "ys = ys' @ [w]" by (cases ys rule: rev_cases) auto
  with assms(3) y have "y \<in> set ys'" by auto
  then obtain l0 l1 where "ys' = l0 @ y # l1" by (auto simp: in_set_conv_decomp)
  then have "map c (ys @ x # zs) = map c l0 @ c x # map c l1 @ c w # (c x # map c zs)"
    using y w by simp
  from grouped_no_return[OF assms(1)[unfolded this]] assms(3) w show False by simp
qed

lemma grouped_after:
  assumes "grouped (map c (ys @ x # z # zs))" "c z \<noteq> c x"
  shows "c x \<notin> c ` set (z # zs)" "c z \<notin> c ` set ys"
proof -
  have "map c (ys @ x # z # zs) = map c ys @ c x # [] @ c z # map c zs" by simp
  from grouped_no_return[OF assms(1)[unfolded this] assms(2)] show "c x \<notin> c ` set (z # zs)"
    using assms(2) by auto
  show "c z \<notin> c ` set ys"
  proof
    assume "c z \<in> c ` set ys"
    then obtain y where "y \<in> set ys" "c y = c z" by auto
    then obtain l0 l1 where "ys = l0 @ y # l1" by (auto simp: in_set_conv_decomp)
    then have "map c (ys @ x # z # zs) = map c l0 @ c z # map c l1 @ c x # (c z # map c zs)"
      using \<open>c y = c z\<close> by simp
    from grouped_no_return[OF assms(1)[unfolded this]] assms(2) show False by simp
  qed
qed

lemma core_remove:
  assumes "core e nx c n bs (ys @ x # zs)"
  shows "core e (nx(last (e # ys) \<mapsto> hd (zs @ [e]))) c n
           (if zs = [] then (if ys = [] \<or> c (last ys) \<noteq> c x then bs[c x := 0] else bs)
            else if c (hd zs) \<noteq> c x then
              (if ys = [] \<or> c (last ys) \<noteq> c x
               then (bs[c (hd zs) := last (e # ys)])[c x := 0]
               else bs[c (hd zs) := last (e # ys)])
            else bs)
           (ys @ zs)" (is "core e ?nx c n ?bs (ys @ zs)")
proof -
  let ?a = "last (e # ys)"
  from assms have e: "0 < e" "e \<notin> set (ys @ x # zs)" "0 \<notin> set (ys @ x # zs)"
      "distinct (ys @ x # zs)" "nx 0 = None"
    and lk: "linked nx (e # (ys @ x # zs) @ [e])" and cn: "\<forall>y\<in>set (ys @ x # zs). c y < n"
    and bs: "bs = map (anchor_of c e (ys @ x # zs)) [0..<n]"
    and g: "grouped (map c (ys @ x # zs))"
    by (auto simp: core_def)
  have d: "distinct (e # ys)" using e by auto
  have a1: "?a \<notin> set (butlast (e # ys))" using last_notin_butlast[OF d] by simp
  have a2: "?a \<notin> set zs"
  proof (cases "ys = []")
    case True
    then show ?thesis using e by simp
  next
    case False
    then have "last ys \<in> set ys" by simp
    moreover have "set ys \<inter> set zs = {}" using e by auto
    ultimately have "last ys \<notin> set zs" by blast
    then show ?thesis using False by simp
  qed
  have "?a \<in> set (e # ys)" by (rule last_in_set) simp
  then have a0: "?a \<noteq> 0" using e by (metis Un_iff gr_implies_not0 set_ConsD set_append)
  from lk have "linked nx ((e # ys) @ ([x] @ (zs @ [e])))" by simp
  from this[unfolded linked_append[of nx "e # ys" "[x] @ (zs @ [e])"]
      linked_append[of nx "[x]" "zs @ [e]"]]
  have l1: "linked nx (e # ys)" and l2: "linked nx (zs @ [e])" by simp_all
  have "linked ?nx (e # ys)" using l1 linked_upd[OF a1, of nx "Some (hd (zs @ [e]))"] by simp
  moreover have "linked ?nx (zs @ [e])"
    using l2 a2 by (simp add: linked_upd butlast_append)
  ultimately have 1: "linked ?nx (e # (ys @ zs) @ [e])"
    using linked_append[of ?nx "e # ys" "zs @ [e]"] by simp
  have 2: "grouped (map c (ys @ zs))" using grouped_del[of "map c ys" "c x" "map c zs"] g by simp
  have old: "bs ! i = (if i \<in> c ` set ys then anchor_of c e ys i
                       else if c x = i then ?a else anchor_of c x zs i)" if "i < n" for i
    using that by (simp add: bs anchor_of_append)
  have new: "anchor_of c e (ys @ zs) i =
               (if i \<in> c ` set ys then anchor_of c e ys i else anchor_of c ?a zs i)" for i
    by (simp add: anchor_of_append)
  have cx: "c x < n" using cn by simp
  have len: "length bs = n" by (simp add: bs)
  have out: "c x \<notin> c ` set ys" if "ys = [] \<or> c (last ys) \<noteq> c x"
  proof (cases "ys = []")
    case True
    then show ?thesis by simp
  next
    case False
    with that have "c (last ys) \<noteq> c x" by simp
    from grouped_before[OF g False this] show ?thesis .
  qed
  have inn: "c x \<in> c ` set ys" if "\<not> (ys = [] \<or> c (last ys) \<noteq> c x)"
    using that by (metis image_eqI last_in_set)
  have 3: "?bs = map (anchor_of c e (ys @ zs)) [0..<n]" (is "_ = ?r")
  proof (rule nth_equalityI)
    show "length ?bs = length ?r" by (simp add: len)
  next
    fix i assume "i < length ?bs"
    then have i: "i < n" by (simp add: len split: if_splits)
    have r: "?r ! i = (if i \<in> c ` set ys then anchor_of c e ys i else anchor_of c ?a zs i)"
      using i by (simp add: new)
    show "?bs ! i = ?r ! i"
    proof (cases zs)
      case Nil
      show ?thesis
      proof (cases "ys = [] \<or> c (last ys) \<noteq> c x")
        case True
        have bsv: "?bs = bs[c x := 0]" using Nil True by simp
        from out[OF True] have o: "c x \<notin> c ` set ys" .
        show ?thesis unfolding bsv r using i cx len old[OF i] o
          by (auto simp add: new Nil nth_list_update anchor_of_absent)
      next
        case False
        have bsv: "?bs = bs" using Nil False by simp
        from inn[OF False] have o: "c x \<in> c ` set ys" .
        show ?thesis unfolding bsv r using i old[OF i] o
          by (auto simp add: new Nil anchor_of_absent)
      qed
    next
      case (Cons z zs')
      show ?thesis
      proof (cases "c z = c x")
        case True
        have bsv: "?bs = bs" using Cons True by simp
        show ?thesis unfolding bsv r using i old[OF i] True
          by (auto simp add: new Cons)
      next
        case False
        have g': "grouped (map c (ys @ x # z # zs'))" using g Cons by simp
        note ga = grouped_after[OF g' False]
        have cz: "c z < n" using cn Cons by simp
        have zero: "anchor_of c q zs (c x) = 0" for q
          by (rule anchor_of_absent) (use ga(1) Cons in simp)
        show ?thesis
        proof (cases "ys = [] \<or> c (last ys) \<noteq> c x")
          case True
          have bsv: "?bs = (bs[c z := ?a])[c x := 0]" using Cons True False by simp
          from out[OF True] have o: "c x \<notin> c ` set ys" .
          show ?thesis unfolding bsv r using i False cx cz len old[OF i] ga(2) o zero
            by (auto simp add: new Cons nth_list_update)
        next
          case F: False
          have bsv: "?bs = bs[c z := ?a]" using Cons F False by simp
          from inn[OF F] have o: "c x \<in> c ` set ys" .
          show ?thesis unfolding bsv r using i False cx cz len old[OF i] ga(2) o
            by (auto simp add: new Cons nth_list_update)
        qed
      qed
    qed
  qed
  show ?thesis
    unfolding core_def using e 1 2 cn 3 a0 by (auto simp del: grouped.simps)
qed

lemma core_upd_nx:
  "a \<noteq> e \<Longrightarrow> a \<notin> set xs \<Longrightarrow> a \<noteq> 0 \<Longrightarrow>
     core e (nx(a := v)) c n bs xs = core e nx c n bs xs"
  by (simp add: core_def linked_upd butlast_append)

lemma core_cong_c:
  assumes "\<And>x. x \<in> set xs \<Longrightarrow> c x = d x"
  shows "core e nx c n bs xs = core e nx d n bs xs"
proof -
  have 1: "map c xs = map d xs" using assms by simp
  have 2: "anchor_of c e xs = anchor_of d e xs"
    by (rule ext, rule anchor_of_cong) (use assms in auto)
  have 3: "(\<forall>x\<in>set xs. c x < n) = (\<forall>x\<in>set xs. d x < n)" using assms by auto
  show ?thesis unfolding core_def 1 2 3 ..
qed

lemma invariant_iff: "invariant m \<longleftrightarrow> (\<exists>xs. well_formed m xs)"
  by (auto simp: invariant_def well_formed_def split: option.splits)

lemma wfm_node:
  assumes "well_formed m xs" "x \<in> set xs"
  shows "cached m x = Some (cached_of m x)"
    and "\<exists>v. node_value m x = Some (key_of m x, v)"
    and "cached_of m x = hasher m (key_of m x) mod buckets_count m"
    and "cached_of m x < buckets_count m"
    and "0 < buckets_count m"
proof -
  from assms have *: "case node_value m x of None \<Rightarrow> False
        | Some kv \<Rightarrow> cached m x = Some (hasher m (fst kv) mod buckets_count m)"
    and n: "0 < buckets_count m"
    by (auto simp: well_formed_def well_formed_list_def)
  then obtain kv where kv: "node_value m x = Some kv"
    "cached m x = Some (hasher m (fst kv) mod buckets_count m)"
    by (auto split: option.splits)
  show "cached m x = Some (cached_of m x)" using kv by (simp add: cached_of_def)
  show "\<exists>v. node_value m x = Some (key_of m x, v)" using kv by (cases kv) (simp add: key_of_def)
  show "cached_of m x = hasher m (key_of m x) mod buckets_count m"
    using kv by (simp add: cached_of_def key_of_def)
  then show "cached_of m x < buckets_count m" using n by simp
  show "0 < buckets_count m" by (rule n)
qed

lemma wfm_core:
  assumes "well_formed m xs"
  shows "core (Elist m) (next_node m) (cached_of m) (buckets_count m)
           (map (anchor_of (cached_of m) (Elist m) xs) [0..<buckets_count m]) xs"
    and "buckets m = Some (map (anchor_of (cached_of m) (Elist m) xs) [0..<buckets_count m])"
proof -
  from assms have t: "Elist m \<notin> set xs" "linked (next_node m) (Elist m # xs @ [Elist m])"
    by (simp_all add: well_formed_def traversal_Some_iff)
  have "\<forall>x\<in>set xs. cached_of m x < buckets_count m" using wfm_node(4)[OF assms] by blast
  moreover have "0 \<notin> set xs" "next_node m 0 = None" using assms by (auto simp: well_formed_def well_formed_list_def)
  ultimately show "core (Elist m) (next_node m) (cached_of m) (buckets_count m)
           (map (anchor_of (cached_of m) (Elist m) xs) [0..<buckets_count m]) xs"
    using assms t unfolding core_def well_formed_def well_formed_list_def by simp
  show "buckets m = Some (map (anchor_of (cached_of m) (Elist m) xs) [0..<buckets_count m])"
    using assms by (simp add: well_formed_def well_formed_list_def)
qed

lemma well_formedI:
  assumes "core (Elist m) (next_node m) (cached_of m) (buckets_count m) bs xs"
    "buckets m = Some bs" "Elist m < fresh m" "\<forall>x\<in>set xs. x < fresh m"
    "\<forall>x\<in>set xs. \<exists>kv. node_value m x = Some kv \<and>
        cached m x = Some (hasher m (fst kv) mod buckets_count m)"
    "distinct (map (key_of m) xs)" "m_size m = length xs"
  shows "well_formed m xs"
proof -
  from assms(1) have c: "0 < Elist m" "Elist m \<notin> set xs" "0 \<notin> set xs" "distinct xs"
    "linked (next_node m) (Elist m # xs @ [Elist m])" "\<forall>x\<in>set xs. cached_of m x < buckets_count m"
    "bs = map (anchor_of (cached_of m) (Elist m) xs) [0..<buckets_count m]"
    "grouped (map (cached_of m) xs)" "next_node m 0 = None"
    by (simp_all add: core_def)
  have "0 < buckets_count m" if "xs \<noteq> []"
    using that c(6) by (cases xs) auto
  moreover have "\<forall>x\<in>set xs. 0 < x" using c(3) by (metis gr0I)
  moreover have "\<forall>x\<in>set xs. case node_value m x of None \<Rightarrow> False
        | Some kv \<Rightarrow> cached m x = Some (hasher m (fst kv) mod buckets_count m)"
    using assms(5) by fastforce
  ultimately show ?thesis
    unfolding well_formed_def well_formed_list_def traversal_Some_iff using assms c
    by (simp del: grouped.simps)
qed

lemma grouped_run:
  assumes "grouped (map c (ys @ l))" "l \<noteq> []" "c (hd l) = b"
  shows "b \<notin> c ` set (dropWhile (\<lambda>x. c x = b) l)"
proof -
  obtain x l' where l: "l = x # l'" using assms(2) by (cases l) auto
  from grouped_suffix[of "map c ys" "map c l"] assms(1) have "grouped (map c l)" by simp
  then have "c x \<notin> set (dropWhile (\<lambda>d. d = c x) (map c l'))" by (simp add: l)
  then show ?thesis using assms(3) by (simp add: l dropWhile_map comp_def)
qed

lemma run_set:
  assumes "grouped (map c (ys @ l))" "l \<noteq> []" "c (hd l) = b" "b \<notin> c ` set ys"
  shows "set (takeWhile (\<lambda>x. c x = b) l) = {x \<in> set (ys @ l). c x = b}"
proof -
  have "set l = set (takeWhile (\<lambda>x. c x = b) l) \<union> set (dropWhile (\<lambda>x. c x = b) l)"
    by (metis set_append takeWhile_dropWhile_id)
  moreover have "\<forall>x\<in>set (takeWhile (\<lambda>x. c x = b) l). c x = b"
    by (auto dest: set_takeWhileD)
  ultimately show ?thesis using grouped_run[OF assms(1-3)] assms(4) by auto
qed

lemma find_in_bucket_loop_run:
  assumes "linked (next_node m) (l @ [Elist m])" "Elist m \<notin> set l"
    "\<forall>x\<in>set l. cached m x = Some (cached_of m x) \<and> (\<exists>v. node_value m x = Some (key_of m x, v))"
  shows "find_in_bucket_loop m b k (hd (l @ [Elist m])) =
           Some (Inr (k \<in> key_of m ` set (takeWhile (\<lambda>x. cached_of m x = b) l)))"
  using assms
proof (induction l)
  case Nil
  show ?case by (subst find_in_bucket_loop.simps) simp
next
  case (Cons x l)
  from Cons.prems have n: "next_node m x = Some (hd (l @ [Elist m]))"
    and l: "linked (next_node m) (l @ [Elist m])"
    by (simp_all add: linked_Cons)
  from Cons.prems obtain v where x: "cached m x = Some (cached_of m x)"
    "node_value m x = Some (key_of m x, v)" "x \<noteq> Elist m" by auto
  have ih: "find_in_bucket_loop m b k (hd (l @ [Elist m])) =
           Some (Inr (k \<in> key_of m ` set (takeWhile (\<lambda>x. cached_of m x = b) l)))"
    using Cons.IH[OF l] Cons.prems by simp
  show ?case
    by (subst find_in_bucket_loop.simps) (auto simp: x n ih)
qed

lemma find_loop_run:
  assumes "linked (next_node m) (l @ [Elist m])" "Elist m \<notin> set l"
    "\<forall>x\<in>set l. cached m x = Some (cached_of m x) \<and> (\<exists>v. node_value m x = Some (key_of m x, v))"
  shows "find_loop m b k (hd (l @ [Elist m])) =
           Some (Inr (case List.find (\<lambda>x. key_of m x = k) (takeWhile (\<lambda>x. cached_of m x = b) l) of
                        None \<Rightarrow> Elist m | Some x \<Rightarrow> x))"
  using assms
proof (induction l)
  case Nil
  show ?case by (subst find_loop.simps) simp
next
  case (Cons x l)
  from Cons.prems have n: "next_node m x = Some (hd (l @ [Elist m]))"
    and l: "linked (next_node m) (l @ [Elist m])"
    by (simp_all add: linked_Cons)
  from Cons.prems obtain v where x: "cached m x = Some (cached_of m x)"
    "node_value m x = Some (key_of m x, v)" "x \<noteq> Elist m" by auto
  have ih: "find_loop m b k (hd (l @ [Elist m])) =
           Some (Inr (case List.find (\<lambda>x. key_of m x = k) (takeWhile (\<lambda>x. cached_of m x = b) l) of
                        None \<Rightarrow> Elist m | Some x \<Rightarrow> x))"
    using Cons.IH[OF l] Cons.prems by simp
  show ?case
    by (subst find_loop.simps) (auto simp: x n ih)
qed

text \<open>What a well-formed container gives for the bucket of a key.\<close>

lemma wfm_bucket:
  assumes "well_formed m xs" "b < buckets_count m"
  shows "\<exists>a. bucket_read m b = Some a \<and>
     (if a = 0 then b \<notin> cached_of m ` set xs
      else \<exists>ys l. xs = ys @ l \<and> l \<noteq> [] \<and> cached_of m (hd l) = b \<and> b \<notin> cached_of m ` set ys \<and>
             a = last (Elist m # ys) \<and> next_node m a = Some (hd l) \<and>
             linked (next_node m) (l @ [Elist m]) \<and>
             set (takeWhile (\<lambda>x. cached_of m x = b) l) = {x \<in> set xs. cached_of m x = b})"
proof -
  let ?bs = "map (anchor_of (cached_of m) (Elist m) xs) [0..<buckets_count m]"
  note c = wfm_core[OF assms(1)]
  have r: "bucket_read m b = Some (?bs ! b)"
    using c(2) assms(2) by (simp add: bucket_read_def arr_read_def)
  show ?thesis
  proof (cases "?bs ! b = 0")
    case True
    then show ?thesis using r core_empty_bucket[OF c(1) assms(2)] by simp
  next
    case False
    from core_bucket[OF c(1) assms(2) False] obtain ys l where
      *: "xs = ys @ l" "l \<noteq> []" "cached_of m (hd l) = b" "b \<notin> cached_of m ` set ys"
        "?bs ! b = last (Elist m # ys)" "next_node m (?bs ! b) = Some (hd l)"
        "linked (next_node m) (l @ [Elist m])"
      by blast
    have g: "grouped (map (cached_of m) (ys @ l))" using c(1) * by (simp add: core_def)
    from run_set[OF g *(2,3,4)] * False r show ?thesis
      by (intro exI[of _ "?bs ! b"]) (simp, blast)
  qed
qed

lemma wfm_find_in_bucket:
  assumes "well_formed m xs" "0 < buckets_count m"
  shows "priv_find_in_bucket m (hasher m k mod buckets_count m) k =
           Some (Inr (k \<in> key_of m ` set xs))"
proof -
  let ?b = "hasher m k mod buckets_count m"
  have b: "?b < buckets_count m" using assms(2) by simp
  have kb: "cached_of m x = ?b" if "x \<in> set xs" "key_of m x = k" for x
    using wfm_node(3)[OF assms(1) that(1)] that(2) by simp
  from wfm_bucket[OF assms(1) b] obtain a where a: "bucket_read m ?b = Some a"
    and c: "if a = 0 then ?b \<notin> cached_of m ` set xs
      else \<exists>ys l. xs = ys @ l \<and> l \<noteq> [] \<and> cached_of m (hd l) = ?b \<and> ?b \<notin> cached_of m ` set ys \<and>
             a = last (Elist m # ys) \<and> next_node m a = Some (hd l) \<and>
             linked (next_node m) (l @ [Elist m]) \<and>
             set (takeWhile (\<lambda>x. cached_of m x = ?b) l) = {x \<in> set xs. cached_of m x = ?b}"
    by blast
  show ?thesis
  proof (cases "a = 0")
    case True
    with c have "?b \<notin> cached_of m ` set xs" by simp
    then have "k \<notin> key_of m ` set xs" using kb by (metis image_iff)
    then show ?thesis using a True by (simp add: priv_find_in_bucket_def)
  next
    case False
    with c obtain ys l where *: "xs = ys @ l" "l \<noteq> []" "next_node m a = Some (hd l)"
      "linked (next_node m) (l @ [Elist m])"
      "set (takeWhile (\<lambda>x. cached_of m x = ?b) l) = {x \<in> set xs. cached_of m x = ?b}"
      by auto
    have e: "Elist m \<notin> set l" using assms(1) * by (simp add: well_formed_def traversal_Some_iff)
    have nd: "\<forall>x\<in>set l. cached m x = Some (cached_of m x) \<and> (\<exists>v. node_value m x = Some (key_of m x, v))"
      using wfm_node(1,2)[OF assms(1)] * by simp
    have "(k \<in> key_of m ` set (takeWhile (\<lambda>x. cached_of m x = ?b) l)) = (k \<in> key_of m ` set xs)"
      unfolding *(5) using kb by auto
    then show ?thesis
      using a False *(2,3) find_in_bucket_loop_run[OF *(4) e nd, of ?b k]
      by (simp add: priv_find_in_bucket_def)
  qed
qed

lemma cached_of_upd: "cached_of (m\<lparr>cached := (cached m)(p \<mapsto> b)\<rparr>) = (cached_of m)(p := b)"
  by (rule ext) (simp add: cached_of_def)

lemma wfm_first: "well_formed m xs \<Longrightarrow> next_node m (Elist m) = Some (hd (xs @ [Elist m]))"
  by (cases xs) (auto simp: well_formed_def traversal_Some_iff)

lemma wfm_fresh:
  assumes "well_formed m xs"
  shows "fresh m \<notin> set xs" "fresh m \<noteq> Elist m" "fresh m \<noteq> 0" "Elist m \<notin> set xs" "0 < Elist m"
  using assms by (auto simp: well_formed_def well_formed_list_def traversal_Some_iff)

lemma wfm_insert_splice:
  assumes "well_formed m xs" "0 < buckets_count m" "k \<notin> key_of m ` set xs"
    and b: "b = hasher m k mod buckets_count m"
    and m1: "m1 = m\<lparr>cached := (cached m)(fresh m \<mapsto> b),
                     node_value := (node_value m)(fresh m \<mapsto> (k, v)),
                     fresh := Suc (fresh m)\<rparr>"
  shows "\<exists>a m2 xs'. bucket_read m1 b = Some a \<and>
           (if a = 0 then priv_insert_in_empty_bucket m1 b (fresh m)
            else priv_insert_in_nonempty_bucket m1 b (fresh m)) = Inr m2 \<and>
           well_formed (m2\<lparr>m_size := m_size m2 + 1\<rparr>) xs' \<and> set xs' = insert (fresh m) (set xs) \<and>
           m2 = m1\<lparr>next_node := next_node m2, buckets := buckets m2\<rparr>"
proof -
  let ?e = "Elist m" and ?p = "fresh m" and ?n = "buckets_count m"
  let ?c = "cached_of m" and ?nx = "next_node m"
  let ?bs = "map (anchor_of ?c ?e xs) [0..<?n]"
  note c = wfm_core[OF assms(1)]
  note f = wfm_fresh[OF assms(1)]
  have bn: "b < ?n" using assms(2) b by simp
  have len: "length ?bs = ?n" by simp
  have r: "bucket_read m1 b = Some (?bs ! b)"
    using c(2) bn by (simp add: bucket_read_def arr_read_def m1)
  have c1: "cached_of m1 = ?c(?p := b)"
    by (rule ext) (simp add: cached_of_def m1)
  have nodes: "\<forall>x\<in>set (?p # xs). \<exists>kv. node_value m1 x = Some kv \<and>
        cached m1 x = Some (hasher m1 (fst kv) mod buckets_count m1)"
  proof
    fix x assume "x \<in> set (?p # xs)"
    then consider "x = ?p" | "x \<in> set xs" "x \<noteq> ?p" using f(1) by auto
    then show "\<exists>kv. node_value m1 x = Some kv \<and>
        cached m1 x = Some (hasher m1 (fst kv) mod buckets_count m1)"
    proof cases
      case 1
      then show ?thesis by (simp add: m1 b)
    next
      case 2
      from wfm_node(1,2,3)[OF assms(1) 2(1)] 2(2) show ?thesis by (auto simp: m1)
    qed
  qed
  have keys: "key_of m1 x = key_of m x" if "x \<in> set xs" for x
    using that f(1) by (auto simp: key_of_def m1)
  have kp: "key_of m1 ?p = k" by (simp add: key_of_def m1)
  have dk: "distinct (map (key_of m1) l)" if "set l = insert ?p (set xs)" "distinct l"
      "length l = Suc (length xs)" for l
  proof -
    have "inj_on (key_of m1) (set xs)"
      using assms(1) keys by (auto simp: well_formed_def well_formed_list_def distinct_map inj_on_def)
    moreover have "key_of m1 ?p \<notin> key_of m1 ` (set xs - {?p})"
    proof
      assume "key_of m1 ?p \<in> key_of m1 ` (set xs - {?p})"
      then obtain x where "x \<in> set xs" "key_of m1 x = k" unfolding kp by auto
      with keys[of x] assms(3) show False by auto
    qed
    ultimately have "inj_on (key_of m1) (insert ?p (set xs))"
      by (simp only: inj_on_insert) simp
    then show ?thesis using that by (simp add: distinct_map)
  qed
  have lt: "\<forall>x\<in>set (?p # xs). x < Suc ?p" using assms(1) by (auto simp: well_formed_def well_formed_list_def)
  have sz: "m_size m = length xs" using assms(1) by (simp add: well_formed_def well_formed_list_def)
  have ef: "?e < Suc ?p" using assms(1) by (auto simp: well_formed_def well_formed_list_def)
  have wfM: "well_formed M xs'"
    if M: "Elist M = ?e" "cached M = cached m1" "node_value M = node_value m1"
       "hasher M = hasher m1" "buckets_count M = buckets_count m1" "fresh M = Suc ?p"
       "m_size M = Suc (m_size m)" "buckets M = Some bs'"
      and cr: "core ?e (next_node M) (?c(?p := b)) ?n bs' xs'"
      and xs': "set xs' = insert ?p (set xs)" "length xs' = Suc (length xs)"
    for M :: "('a, 'b) U_Map" and xs' bs'
  proof (rule well_formedI[where bs = bs'])
    have MK: "key_of M = key_of m1" "cached_of M = cached_of m1"
      by (simp_all add: fun_eq_iff key_of_def cached_of_def M)
    have n1: "buckets_count m1 = ?n" by (simp add: m1)
    show "core (Elist M) (next_node M) (cached_of M) (buckets_count M) bs' xs'"
      unfolding M MK c1 n1 by (rule cr)
    show "buckets M = Some bs'" by (rule M)
    show "Elist M < fresh M" unfolding M by (rule ef)
    show "\<forall>x\<in>set xs'. x < fresh M" unfolding M xs' using lt by simp
    show "\<forall>x\<in>set xs'. \<exists>kv. node_value M x = Some kv \<and>
        cached M x = Some (hasher M (fst kv) mod buckets_count M)"
      unfolding M xs' using nodes by simp
    have "distinct xs'" using cr by (simp add: core_def)
    then show "distinct (map (key_of M) xs')" unfolding MK using dk[OF xs'(1) _ xs'(2)] by simp
    show "m_size M = length xs'" unfolding M xs' using sz by simp
  qed
  show ?thesis
  proof (cases "?bs ! b = 0")
    case True
    then have nb: "b \<notin> ?c ` set xs" using core_empty_bucket[OF c(1) bn] by simp
    let ?bs' = "if xs = [] then ?bs[b := ?e] else (?bs[b := ?e])[?c (hd xs) := ?p]"
    let ?m2 = "m1\<lparr>next_node := ?nx(?p \<mapsto> hd (xs @ [?e]), ?e \<mapsto> ?p), buckets := Some ?bs'\<rparr>"
    from core_front[OF c(1) f(1,2,3) bn nb]
    have cf: "core ?e (?nx(?p \<mapsto> hd (xs @ [?e]), ?e \<mapsto> ?p)) (?c(?p := b)) ?n ?bs' (?p # xs)" .
    have ins: "priv_insert_in_empty_bucket m1 b ?p = Inr ?m2"
    proof (cases xs)
      case Nil
      then show ?thesis
        using wfm_first[OF assms(1)] c(2) bn f
        by (simp add: priv_insert_in_empty_bucket_def m1 Let_def bucket_write_def arr_write_def)
    next
      case (Cons x xs')
      then have x: "x \<noteq> ?e" "x \<noteq> ?p" "x \<in> set xs" using f by auto
      have "?c x < ?n" using wfm_node(4)[OF assms(1) x(3)] .
      then show ?thesis
        using wfm_first[OF assms(1)] c(2) bn f x Cons wfm_node(1)[OF assms(1) x(3)]
        by (simp add: priv_insert_in_empty_bucket_def m1 Let_def bucket_write_def arr_write_def)
    qed
    have "well_formed (?m2\<lparr>m_size := m_size ?m2 + 1\<rparr>) (?p # xs)"
      by (rule wfM) (use cf in \<open>simp_all add: m1\<close>)
    then show ?thesis
      using r True ins by (intro exI[of _ 0] exI[of _ ?m2] exI[of _ "?p # xs"]) (simp add: m1)
  next
    case False
    from core_bucket[OF c(1) bn False] obtain ys l where
      *: "xs = ys @ l" "l \<noteq> []" "?c (hd l) = b" "b \<notin> ?c ` set ys"
        "?bs ! b = last (?e # ys)" "?nx (?bs ! b) = Some (hd l)"
      by blast
    let ?a = "last (?e # ys)"
    let ?m2 = "m1\<lparr>next_node := ?nx(?p \<mapsto> hd l, ?a \<mapsto> ?p)\<rparr>"
    have pl: "?p \<notin> set (ys @ l)" using f(1) * by simp
    from core_splice[OF c(1)[unfolded *(1)] *(2,3,4) pl f(2,3)]
    have cf: "core ?e (?nx(?p \<mapsto> hd l, ?a \<mapsto> ?p)) (?c(?p := b)) ?n
                (map (anchor_of ?c ?e (ys @ l)) [0..<?n]) (ys @ ?p # l)" .
    have ins: "priv_insert_in_nonempty_bucket m1 b ?p = Inr ?m2"
      using r * by (simp add: priv_insert_in_nonempty_bucket_def Let_def bucket_read_def m1)
    have "well_formed (?m2\<lparr>m_size := m_size ?m2 + 1\<rparr>) (ys @ ?p # l)"
      by (rule wfM[where bs' = ?bs]) (use cf c(2) * in \<open>auto simp add: m1\<close>)
    then show ?thesis
      using r False ins *(1)
      by (intro exI[of _ "?bs ! b"] exI[of _ ?m2] exI[of _ "ys @ ?p # l"]) (auto simp add: m1)
  qed
qed


lemma rehash_loop_ok:
  assumes "core (Elist m) (next_node m) (cached_of m) n nb ys"
    "linked (next_node m) (zs @ [Elist m])" "distinct (ys @ zs)" "Elist m \<notin> set zs" "0 \<notin> set zs"
    "\<forall>x\<in>set ys. cached m x = Some (cached_of m x)"
    "\<forall>x\<in>set zs. \<exists>v. node_value m x = Some (key_of m x, v)"
    "zs \<noteq> [] \<longrightarrow> 0 < n"
  shows "\<exists>nb' m' ys'. rehash_loop m n nb (hd (zs @ [Elist m])) = Some (Inr nb', m') \<and>
           core (Elist m) (next_node m') (cached_of m') n nb' ys' \<and>
           set ys' = set ys \<union> set zs \<and> length ys' = length ys + length zs \<and>
           (\<forall>x\<in>set zs. cached m' x = Some (hasher m (key_of m x) mod n)) \<and>
           (\<forall>x\<in>set ys. cached m' x = cached m x) \<and>
           m' = m\<lparr>next_node := next_node m', cached := cached m'\<rparr>"
  using assms
proof (induction zs arbitrary: m nb ys)
  case Nil
  have "rehash_loop m n nb (Elist m) = Some (Inr nb, m)"
    by (subst rehash_loop.simps) simp
  then show ?case using Nil.prems(1) by (intro exI[of _ nb] exI[of _ m] exI[of _ ys]) simp
next
  case (Cons z zs)
  let ?e = "Elist m" and ?nx = "next_node m" and ?c = "cached_of m"
  let ?b = "hasher m (key_of m z) mod n"
  let ?nxt = "hd (zs @ [?e])"
  note cr = Cons.prems(1)
  from Cons.prems have z: "z \<noteq> ?e" "z \<notin> set ys" "z \<noteq> 0" "z \<notin> set zs" "0 < n"
    and nz: "?nx z = Some ?nxt" and lz: "linked ?nx (zs @ [?e])"
    and ez: "?e \<notin> set zs"
    by (auto simp: linked_Cons)
  from Cons.prems(7) obtain v where kv: "node_value m z = Some (key_of m z, v)" by auto
  have bn: "?b < n" using z(5) by simp
  have len: "length nb = n" using cr by (rule core_length)
  have e0: "0 < ?e" "?e \<notin> set ys" using cr by (simp_all add: core_def)
  have fst: "?nx ?e = Some (hd (ys @ [?e]))"
    using cr by (cases ys) (simp_all add: core_def)
  have cn: "\<forall>x\<in>set ys. ?c x < n" using cr by (simp add: core_def)
  define NB where "NB = (if nb ! ?b = 0
      then (if ys = [] then nb[?b := ?e] else (nb[?b := ?e])[?c (hd ys) := z]) else nb)"
  define NX where "NX = (if nb ! ?b = 0 then ?nx(z \<mapsto> hd (ys @ [?e]), ?e \<mapsto> z)
      else ?nx(z \<mapsto> the (?nx (nb ! ?b)), nb ! ?b \<mapsto> z))"
  define M where "M = m\<lparr>cached := (cached m)(z \<mapsto> ?b), next_node := NX\<rparr>"
  have M: "Elist M = ?e" "next_node M = NX" "cached M = (cached m)(z \<mapsto> ?b)"
    "node_value M = node_value m" "hasher M = hasher m"
    by (simp_all add: M_def)
  have MK: "key_of M = key_of m" "cached_of M = ?c(z := ?b)"
    by (simp_all add: fun_eq_iff key_of_def cached_of_def M)
  have "\<exists>YS. core ?e NX (?c(z := ?b)) n NB YS \<and> set YS = insert z (set ys) \<and>
          length YS = Suc (length ys) \<and> linked NX (zs @ [?e]) \<and>
          rehash_loop m n nb z = rehash_loop M n NB ?nxt"
  proof (cases "nb ! ?b = 0")
    case True
    then have nbc: "?b \<notin> ?c ` set ys" using core_empty_bucket[OF cr bn] by simp
    have NB: "NB = (if ys = [] then nb[?b := ?e] else (nb[?b := ?e])[?c (hd ys) := z])"
      and NX: "NX = ?nx(z \<mapsto> hd (ys @ [?e]), ?e \<mapsto> z)"
      using True by (simp_all add: NB_def NX_def)
    from core_front[OF cr z(2,1,3) bn nbc]
    have 1: "core ?e NX (?c(z := ?b)) n NB (z # ys)" unfolding NB NX .
    have 2: "linked NX (zs @ [?e])"
      unfolding NX using lz ez z(4) by (simp add: linked_upd)
    have 3: "rehash_loop m n nb z = rehash_loop M n NB ?nxt"
    proof (cases ys)
      case Nil
      then show ?thesis
        using z nz kv bn len True fst
        by (subst rehash_loop.simps)
          (simp add: Let_def arr_read_def arr_write_def M_def NB NX)
    next
      case (Cons y ys')
      then have y: "y \<noteq> ?e" "y \<noteq> z" "?c y < n" "cached m y = Some (?c y)"
        using e0 z cn Cons.prems(6) by auto
      show ?thesis
        using z nz kv bn len True fst y Cons
        by (subst rehash_loop.simps)
          (simp add: Let_def arr_read_def arr_write_def M_def NB NX)
    qed
    from 1 2 3 show ?thesis by (intro exI[of _ "z # ys"]) simp
  next
    case False
    from core_bucket[OF cr bn False] obtain y1 l where
      *: "ys = y1 @ l" "l \<noteq> []" "?c (hd l) = ?b" "?b \<notin> ?c ` set y1"
        "nb ! ?b = last (?e # y1)" "?nx (nb ! ?b) = Some (hd l)"
      by blast
    have NB: "NB = nb" and NX: "NX = ?nx(z \<mapsto> hd l, last (?e # y1) \<mapsto> z)"
      using False * by (simp_all add: NB_def NX_def)
    have zl: "z \<notin> set (y1 @ l)" using z(2) * by simp
    from core_splice[OF cr[unfolded *(1)] *(2,3,4) zl z(1,3)]
    have 1: "core ?e NX (?c(z := ?b)) n NB (y1 @ z # l)" unfolding NB NX .
    have "last (?e # y1) \<in> set (?e # ys)" using * last_in_set[of "?e # y1"] by auto
    then have a: "last (?e # y1) \<notin> set zs" using ez Cons.prems(3) by auto
    have 2: "linked NX (zs @ [?e])"
      unfolding NX using lz linked_upd[OF _, of "last (?e # y1)" "zs @ [?e]"] a z(4)
      by (simp add: linked_upd butlast_append del: last.simps)
    have 3: "rehash_loop m n nb z = rehash_loop M n NB ?nxt"
      using z nz kv bn len False *(5,6)
      by (subst rehash_loop.simps)
        (simp add: Let_def arr_read_def M_def NB NX del: last.simps)
    from 1 2 3 * show ?thesis by (intro exI[of _ "y1 @ z # l"]) auto
  qed
  then obtain YS where YS: "core ?e NX (?c(z := ?b)) n NB YS" "set YS = insert z (set ys)"
    "length YS = Suc (length ys)" "linked NX (zs @ [?e])"
    "rehash_loop m n nb z = rehash_loop M n NB ?nxt"
    by blast
  have p1: "core (Elist M) (next_node M) (cached_of M) n NB YS" unfolding M MK by (rule YS)
  have p2: "linked (next_node M) (zs @ [Elist M])" unfolding M by (rule YS)
  have p3: "distinct (YS @ zs)" using YS(1,2) Cons.prems(3) by (auto simp: core_def)
  have p6: "\<forall>x\<in>set YS. cached M x = Some (cached_of M x)"
    unfolding M MK YS(2) using Cons.prems(6) by auto
  have p7: "\<forall>x\<in>set zs. \<exists>v. node_value M x = Some (key_of M x, v)"
    unfolding M MK using Cons.prems(7) by simp
  from Cons.IH[OF p1 p2 p3 _ _ p6 p7] ez Cons.prems(5) z(5)
  obtain nb' m' ys' where r: "rehash_loop M n NB (hd (zs @ [Elist M])) = Some (Inr nb', m')"
    "core (Elist M) (next_node m') (cached_of m') n nb' ys'"
    "set ys' = set YS \<union> set zs" "length ys' = length YS + length zs"
    "\<forall>x\<in>set zs. cached m' x = Some (hasher M (key_of M x) mod n)"
    "\<forall>x\<in>set YS. cached m' x = cached M x"
    "m' = M\<lparr>next_node := next_node m', cached := cached m'\<rparr>"
    unfolding M by auto
  have "rehash_loop m n nb (hd ((z # zs) @ [?e])) = Some (Inr nb', m')"
    using YS(5) r(1) by (simp add: M)
  moreover have "\<forall>x\<in>set (z # zs). cached m' x = Some (hasher m (key_of m x) mod n)"
    using r(5,6) YS(2) by (simp add: M MK)
  moreover have "\<forall>x\<in>set ys. cached m' x = cached m x"
    using r(6) YS(2) z(2) by (auto simp: M)
  moreover have "m' = m\<lparr>next_node := next_node m', cached := cached m'\<rparr>"
    by (subst r(7)) (simp add: M_def)
  ultimately show ?case
    using r(2,3,4) YS(2,3)
    by (intro exI[of _ nb'] exI[of _ m'] exI[of _ ys']) (simp add: M)
qed


lemma wfm_keys_inj: "well_formed m xs \<Longrightarrow> inj_on (key_of m) (set xs)"
  by (simp add: well_formed_def well_formed_list_def distinct_map)

lemma wfm_rehash:
  assumes "well_formed m xs" "xs \<noteq> [] \<longrightarrow> 0 < n"
  shows "\<exists>m' xs'. priv_rehash m n = Some (Inr (), m') \<and> well_formed m' xs' \<and> set xs' = set xs \<and>
           m' = m\<lparr>next_node := next_node m', cached := cached m',
                  buckets_count := n, buckets := buckets m'\<rparr>"
proof -
  let ?e = "Elist m" and ?nx = "next_node m" and ?c = "cached_of m"
  let ?m1 = "m\<lparr>next_node := ?nx(?e \<mapsto> ?e)\<rparr>"
  note f = wfm_fresh[OF assms(1)]
  have t: "linked ?nx (?e # xs @ [?e])" "distinct xs" "0 \<notin> set xs"
    using assms(1) by (auto simp: well_formed_def traversal_Some_iff well_formed_list_def)
  have c1: "cached_of ?m1 = ?c" "key_of ?m1 = key_of m"
    by (simp_all add: fun_eq_iff cached_of_def key_of_def)
  have "anchor_of ?c ?e [] = (\<lambda>i. 0)" by (rule ext) simp
  then have "replicate n 0 = map (anchor_of ?c ?e []) [0..<n]"
    by (simp add: map_replicate_const)
  moreover have "next_node m 0 = None" using assms(1) by (simp add: well_formed_def well_formed_list_def)
  ultimately have p1: "core (Elist ?m1) (next_node ?m1) (cached_of ?m1) n (replicate n 0) []"
    using f unfolding c1 by (simp add: core_def)
  have "linked ?nx (xs @ [?e])" using t(1) by (simp add: linked_Cons)
  then have p2: "linked (next_node ?m1) (xs @ [Elist ?m1])"
    using f(4) by (simp add: linked_upd)
  have p7: "\<forall>x\<in>set xs. \<exists>v. node_value ?m1 x = Some (key_of ?m1 x, v)"
    using wfm_node(2)[OF assms(1)] by (simp add: c1)
  from rehash_loop_ok[OF p1 p2 _ _ _ _ p7] t f assms(2)
  obtain nb' m2 ys' where r: "rehash_loop ?m1 n (replicate n 0) (hd (xs @ [?e])) = Some (Inr nb', m2)"
    "core ?e (next_node m2) (cached_of m2) n nb' ys'"
    "set ys' = set xs" "length ys' = length xs"
    "\<forall>x\<in>set xs. cached m2 x = Some (hasher m (key_of m x) mod n)"
    "m2 = ?m1\<lparr>next_node := next_node m2, cached := cached m2\<rparr>"
    by (auto simp: c1)
  let ?M = "m2\<lparr>buckets_count := n, buckets := Some nb'\<rparr>"
  have m2: "Elist m2 = ?e" "node_value m2 = node_value m" "hasher m2 = hasher m"
    "fresh m2 = fresh m" "m_size m2 = m_size m"
    by (subst r(6), simp)+
  have MK: "key_of ?M = key_of m" "cached_of ?M = cached_of m2"
    by (simp_all add: fun_eq_iff key_of_def cached_of_def m2)
  have run: "priv_rehash m n = Some (Inr (), ?M)"
    using wfm_first[OF assms(1)] r(1) by (simp add: priv_rehash_def Let_def)
  have "well_formed ?M ys'"
  proof (rule well_formedI[where bs = nb'])
    show "core (Elist ?M) (next_node ?M) (cached_of ?M) (buckets_count ?M) nb' ys'"
      using r(2) by (simp add: MK m2)
    show "\<forall>x\<in>set ys'. \<exists>kv. node_value ?M x = Some kv \<and>
        cached ?M x = Some (hasher ?M (fst kv) mod buckets_count ?M)"
    proof
      fix x assume "x \<in> set ys'"
      then have x: "x \<in> set xs" using r(3) by simp
      from wfm_node(2)[OF assms(1) x] obtain v where "node_value m x = Some (key_of m x, v)" by blast
      then show "\<exists>kv. node_value ?M x = Some kv \<and>
        cached ?M x = Some (hasher ?M (fst kv) mod buckets_count ?M)"
        using r(5) x by (simp add: m2)
    qed
    have "distinct ys'" using r(2) by (simp add: core_def)
    then show "distinct (map (key_of ?M) ys')"
      unfolding MK using wfm_keys_inj[OF assms(1)] r(3) by (simp add: distinct_map)
    show "m_size ?M = length ys'" using assms(1) r(4) by (simp add: m2 well_formed_def well_formed_list_def)
    show "Elist ?M < fresh ?M" using assms(1) by (simp add: m2 well_formed_def well_formed_list_def)
    show "\<forall>x\<in>set ys'. x < fresh ?M" using assms(1) r(3) by (simp add: m2 well_formed_def well_formed_list_def)
  qed simp
  moreover have "?M = m\<lparr>next_node := next_node ?M, cached := cached ?M,
                  buckets_count := n, buckets := buckets ?M\<rparr>"
    by (subst (1) r(6)) simp
  ultimately show ?thesis using run r(3) by blast
qed


lemma wfm_insert:
  assumes "well_formed m xs" "0 < buckets_count m" "k \<notin> key_of m ` set xs"
  shows "\<exists>m' xs'. insert_um m (k, v) = Some (Inr (fresh m), m') \<and> well_formed m' xs' \<and>
           set xs' = insert (fresh m) (set xs) \<and>
           m' = m\<lparr>next_node := next_node m', cached := cached m',
                  node_value := (node_value m)(fresh m \<mapsto> (k, v)),
                  fresh := Suc (fresh m), m_size := Suc (m_size m),
                  buckets_count :=
                    (if m_max_load_factor m \<le> real (Suc (m_size m) div buckets_count m)
                     then buckets_count m * 2 else buckets_count m),
                  buckets := buckets m'\<rparr>"
proof -
  let ?b = "hasher m k mod buckets_count m" and ?p = "fresh m"
  let ?m1 = "m\<lparr>cached := (cached m)(?p \<mapsto> ?b), node_value := (node_value m)(?p \<mapsto> (k, v)),
                fresh := Suc ?p\<rparr>"
  from wfm_insert_splice[OF assms refl refl, of v]
  obtain a m2 xs1 where s: "bucket_read ?m1 ?b = Some a"
    "(if a = 0 then priv_insert_in_empty_bucket ?m1 ?b ?p
      else priv_insert_in_nonempty_bucket ?m1 ?b ?p) = Inr m2"
    "well_formed (m2\<lparr>m_size := m_size m2 + 1\<rparr>) xs1" "set xs1 = insert ?p (set xs)"
    "m2 = ?m1\<lparr>next_node := next_node m2, buckets := buckets m2\<rparr>"
    by blast
  let ?m3 = "m2\<lparr>m_size := m_size m2 + 1\<rparr>"
  have m2: "m_size m2 = m_size m" "buckets_count m2 = buckets_count m"
    "m_max_load_factor m2 = m_max_load_factor m" "Elist m2 = Elist m" "hasher m2 = hasher m"
    "fresh m2 = Suc ?p" "node_value m2 = (node_value m)(?p \<mapsto> (k, v))"
    "U_Map.more m2 = U_Map.more m"
    by (subst s(5), simp)+
  have fb: "priv_find_in_bucket m ?b k = Some (Inr False)"
    using wfm_find_in_bucket[OF assms(1,2), of k] assms(3) by simp
  have pre: "insert_um m (k, v) =
      (if m_max_load_factor m \<le> real (Suc (m_size m) div buckets_count m) then
         (case priv_rehash ?m3 (buckets_count m * 2) of None \<Rightarrow> None
          | Some (Inl e, m4) \<Rightarrow> Some (Inl e, m4)
          | Some (Inr u, m4) \<Rightarrow> Some (Inr ?p, m4))
       else Some (Inr ?p, ?m3))"
    using assms(2) fb s(1,2)
    by (simp add: insert_um_def priv_hash_def new_Node_def Let_def m2)
  show ?thesis
  proof (cases "m_max_load_factor m \<le> real (Suc (m_size m) div buckets_count m)")
    case True
    from wfm_rehash[OF s(3), of "buckets_count m * 2"] assms(2)
    obtain m4 xs4 where r: "priv_rehash ?m3 (buckets_count m * 2) = Some (Inr (), m4)"
      "well_formed m4 xs4" "set xs4 = set xs1"
      "m4 = ?m3\<lparr>next_node := next_node m4, cached := cached m4,
                  buckets_count := buckets_count m * 2, buckets := buckets m4\<rparr>"
      by auto
    have m4: "m_size m4 = Suc (m_size m)" "buckets_count m4 = buckets_count m * 2"
      "m_max_load_factor m4 = m_max_load_factor m" "Elist m4 = Elist m" "hasher m4 = hasher m"
      "fresh m4 = Suc ?p" "node_value m4 = (node_value m)(?p \<mapsto> (k, v))"
      "U_Map.more m4 = U_Map.more m"
      by (subst r(4), simp add: m2)+
    have "m4 = m\<lparr>next_node := next_node m4, cached := cached m4,
                  node_value := (node_value m)(?p \<mapsto> (k, v)),
                  fresh := Suc ?p, m_size := Suc (m_size m),
                  buckets_count := buckets_count m * 2, buckets := buckets m4\<rparr>"
      by (rule U_Map.equality) (simp_all add: m4)
    then show ?thesis
      using True pre r(1,2,3) s(4) by (intro exI[of _ m4] exI[of _ xs4]) simp
  next
    case False
    have "?m3 = m\<lparr>next_node := next_node ?m3, cached := cached ?m3,
                  node_value := (node_value m)(?p \<mapsto> (k, v)),
                  fresh := Suc ?p, m_size := Suc (m_size m),
                  buckets_count := buckets_count m, buckets := buckets ?m3\<rparr>"
      by (rule U_Map.equality) (simp_all add: m2)
    then show ?thesis
      using False pre s(3,4) by (intro exI[of _ ?m3] exI[of _ xs1]) simp
  qed
qed

lemma wfm_insert_dup:
  assumes "well_formed m xs" "k \<in> key_of m ` set xs"
  shows "insert_um m (k, v) = Some (Inl DuplicateKey, m)"
proof -
  from assms(2) obtain x where "x \<in> set xs" by auto
  from wfm_node(5)[OF assms(1) this] have n: "0 < buckets_count m" .
  show ?thesis
    using wfm_find_in_bucket[OF assms(1) n, of k] assms(2) n
    by (simp add: insert_um_def priv_hash_def)
qed

lemma cached_of_eq: "cached M y = cached m y \<Longrightarrow> cached_of M y = cached_of m y"
  by (simp add: cached_of_def)

lemma key_of_eq: "node_value M y = node_value m y \<Longrightarrow> key_of M y = key_of m y"
  by (simp add: key_of_def)

lemma erase_found_ok:
  assumes "well_formed m xs" "xs = ys @ x # zs"
  shows "\<exists>m'. erase_found m (cached_of m x) (last (Elist m # ys)) x = Inr m' \<and> well_formed m' (ys @ zs) \<and>
           m' = m\<lparr>next_node := next_node m', cached := (cached m)(x := None),
                  node_value := (node_value m)(x := None), m_size := m_size m - 1,
                  buckets := buckets m'\<rparr>"
proof -
  let ?e = "Elist m" and ?nx = "next_node m" and ?c = "cached_of m" and ?n = "buckets_count m"
  let ?a = "last (?e # ys)" and ?b = "cached_of m x"
  let ?bs = "map (anchor_of ?c ?e xs) [0..<?n]"
  let ?out = "ys = [] \<or> ?c (last ys) \<noteq> ?b"
  let ?bs' = "if zs = [] then (if ?out then ?bs[?b := 0] else ?bs)
            else if ?c (hd zs) \<noteq> ?b then
              (if ?out then (?bs[?c (hd zs) := ?a])[?b := 0] else ?bs[?c (hd zs) := ?a])
            else ?bs"
  let ?nn = "hd (zs @ [?e])"
  let ?m1 = "m\<lparr>next_node := ?nx(?a \<mapsto> ?nn)\<rparr>"
  note c = wfm_core[OF assms(1)]
  note f = wfm_fresh[OF assms(1)]
  have x: "x \<in> set xs" "x \<noteq> ?e" "x \<notin> set (ys @ zs)" "x \<noteq> 0"
    using assms f c(1) by (auto simp: core_def)
  have d: "distinct (?e # ys @ x # zs)" using c(1) assms(2) by (auto simp: core_def)
  have "linked ?nx ((?e # ys) @ ([x] @ (zs @ [?e])))" using c(1) assms(2) by (simp add: core_def)
  from this[unfolded linked_append[of ?nx "?e # ys" "[x] @ (zs @ [?e])"]
      linked_append[of ?nx "[x]" "zs @ [?e]"]]
  have nx: "?nx x = Some ?nn" by simp
  have ain: "?a \<in> set (?e # ys)" by (rule last_in_set) simp
  then have ax: "?a \<noteq> x" using d by auto
  have bn: "?b < ?n" using wfm_node(4)[OF assms(1) x(1)] .
  have len: "length ?bs = ?n" by simp
  have bo: "before_outside M ?b ?a = Some ?out"
    if "Elist M = ?e" "cached M = cached m" for M :: "('a, 'b) U_Map"
  proof (cases "ys = []")
    case True
    then show ?thesis using that by (simp add: before_outside_def)
  next
    case False
    then have "last ys \<in> set ys" by simp
    then have "last ys \<in> set xs" "last ys \<noteq> ?e" using assms(2) f(4) by auto
    with wfm_node(1)[OF assms(1) this(1)] show ?thesis
      using that False by (simp add: before_outside_def)
  qed
  have upd: "(if ?nn = Elist ?m1 then
                (case before_outside ?m1 ?b ?a of None \<Rightarrow> None
                 | Some True \<Rightarrow> bucket_write ?m1 ?b 0
                 | Some False \<Rightarrow> Some ?m1)
              else
                (case cached ?m1 ?nn of None \<Rightarrow> None
                 | Some cn \<Rightarrow>
                   if cn \<noteq> ?b then
                     (case bucket_write ?m1 cn ?a of None \<Rightarrow> None
                      | Some m2 \<Rightarrow>
                        (case before_outside m2 ?b ?a of None \<Rightarrow> None
                         | Some True \<Rightarrow> bucket_write m2 ?b 0
                         | Some False \<Rightarrow> Some m2))
                   else Some ?m1)) = Some (?m1\<lparr>buckets := Some ?bs'\<rparr>)"
  proof (cases zs)
    case Nil
    show ?thesis
      using Nil bn c(2) bo[of ?m1]
      by (simp add: bucket_write_def arr_write_def)
  next
    case (Cons z zs')
    then have z: "z \<in> set xs" "z \<noteq> ?e" using assms(2) f(4) by auto
    have cz: "?c z < ?n" using wfm_node(4)[OF assms(1) z(1)] .
    show ?thesis
      using Cons z bn cz c(2) bo[of ?m1] wfm_node(1)[OF assms(1) z(1)]
        bo[of "?m1\<lparr>buckets := Some (?bs[?c z := ?a])\<rparr>"]
      by (simp add: bucket_write_def arr_write_def)
  qed
  define M where "M = (delete_Node (?m1\<lparr>buckets := Some ?bs'\<rparr>) x)
              \<lparr>m_size := m_size (delete_Node (?m1\<lparr>buckets := Some ?bs'\<rparr>) x) - 1\<rparr>"
  have n1: "next_node ?m1 x = Some ?nn" using nx ax by simp
  have run: "erase_found m ?b ?a x = Inr M"
    unfolding erase_found_def Let_def nx option.case n1 upd M_def ..
  have M: "Elist M = ?e" "next_node M = (?nx(?a \<mapsto> ?nn))(x := None)"
    "cached M = (cached m)(x := None)" "node_value M = (node_value m)(x := None)"
    "hasher M = hasher m" "buckets_count M = ?n" "buckets M = Some ?bs'"
    "fresh M = fresh m" "m_size M = m_size m - 1" "m_max_load_factor M = m_max_load_factor m"
    "U_Map.more M = U_Map.more m"
    by (simp_all add: M_def delete_Node_def)
  have same: "cached_of M y = ?c y" "key_of M y = key_of m y" "node_value M y = node_value m y"
    "cached M y = cached m y" if "y \<in> set (ys @ zs)" for y
    using that x(3) by (auto simp: cached_of_def key_of_def M)
  have "well_formed M (ys @ zs)"
  proof (rule well_formedI[where bs = ?bs'])
    from core_remove[OF c(1)[unfolded assms(2)]]
    have "core ?e (?nx(?a \<mapsto> ?nn)) ?c ?n ?bs' (ys @ zs)" unfolding assms(2) .
    then have "core ?e ((?nx(?a \<mapsto> ?nn))(x := None)) ?c ?n ?bs' (ys @ zs)"
      using core_upd_nx[OF x(2,3,4)] by simp
    then show "core (Elist M) (next_node M) (cached_of M) (buckets_count M) ?bs' (ys @ zs)"
      unfolding M using core_cong_c[of "ys @ zs" "cached_of M" ?c] same(1) by blast
    show "buckets M = Some ?bs'" by (rule M)
    show "Elist M < fresh M" unfolding M using assms(1) by (simp add: well_formed_def well_formed_list_def)
    show "\<forall>y\<in>set (ys @ zs). y < fresh M"
      unfolding M using assms by (auto simp add: well_formed_def well_formed_list_def)
    show "\<forall>y\<in>set (ys @ zs). \<exists>kv. node_value M y = Some kv \<and>
        cached M y = Some (hasher M (fst kv) mod buckets_count M)"
    proof
      fix y assume y: "y \<in> set (ys @ zs)"
      then have "y \<in> set xs" using assms(2) by auto
      with wfm_node(1,2,3)[OF assms(1) this]
      show "\<exists>kv. node_value M y = Some kv \<and>
        cached M y = Some (hasher M (fst kv) mod buckets_count M)"
        unfolding same(3,4)[OF y] M(5,6) by auto
    qed
    have 1: "map (key_of M) (ys @ zs) = map (key_of m) (ys @ zs)"
      using same(2) by (simp only: map_eq_conv) blast
    have "distinct (map (key_of m) (ys @ zs))"
      using assms by (auto simp: well_formed_def well_formed_list_def)
    then show "distinct (map (key_of M) (ys @ zs))" unfolding 1 .
    show "m_size M = length (ys @ zs)"
      unfolding M using assms by (simp add: well_formed_def well_formed_list_def)
  qed
  moreover have "M = m\<lparr>next_node := next_node M, cached := (cached m)(x := None),
                  node_value := (node_value m)(x := None), m_size := m_size m - 1,
                  buckets := buckets M\<rparr>"
    by (rule U_Map.equality) (simp_all add: M)
  ultimately show ?thesis using run by blast
qed


lemma erase_loop_absent:
  assumes "linked (next_node m) (l @ [Elist m])" "Elist m \<notin> set l"
    "\<forall>x\<in>set l. cached m x = Some (cached_of m x) \<and> (\<exists>v. node_value m x = Some (key_of m x, v))"
    "k \<notin> key_of m ` set (takeWhile (\<lambda>x. cached_of m x = b) l)"
  shows "erase_loop m b k before (hd (l @ [Elist m])) = Some (Inl KeyNotFound, m)"
  using assms
proof (induction l arbitrary: before)
  case Nil
  show ?case by (subst erase_loop.simps) simp
next
  case (Cons x l)
  from Cons.prems have n: "next_node m x = Some (hd (l @ [Elist m]))"
    and l: "linked (next_node m) (l @ [Elist m])"
    by (simp_all add: linked_Cons)
  from Cons.prems obtain v where x: "cached m x = Some (cached_of m x)"
    "node_value m x = Some (key_of m x, v)" "x \<noteq> Elist m" by auto
  show ?case
  proof (cases "cached_of m x = b")
    case True
    with Cons.prems(4) have k: "key_of m x \<noteq> k"
      "k \<notin> key_of m ` set (takeWhile (\<lambda>x. cached_of m x = b) l)" by auto
    have "erase_loop m b k x (hd (l @ [Elist m])) = Some (Inl KeyNotFound, m)"
      using Cons.IH[OF l _ _ k(2)] Cons.prems by simp
    then show ?thesis
      using True k(1) by (subst erase_loop.simps) (simp add: x n)
  next
    case False
    then show ?thesis by (subst erase_loop.simps) (simp add: x)
  qed
qed

lemma erase_loop_found:
  assumes "linked (next_node m) (r1 @ [x])" "x \<noteq> Elist m" "Elist m \<notin> set r1"
    "\<forall>y\<in>set r1. cached m y = Some b \<and> (\<exists>v. node_value m y = Some (key_of m y, v)) \<and> key_of m y \<noteq> k"
    "cached m x = Some b" "node_value m x = Some (k, v)"
  shows "erase_loop m b k before (hd (r1 @ [x])) =
           (case erase_found m b (last (before # r1)) x of Inl er \<Rightarrow> Some (Inl er, m)
            | Inr m' \<Rightarrow> Some (Inr (), m'))"
  using assms
proof (induction r1 arbitrary: before)
  case Nil
  then show ?case by (subst erase_loop.simps) simp
next
  case (Cons y r1)
  from Cons.prems have n: "next_node m y = Some (hd (r1 @ [x]))"
    and l: "linked (next_node m) (r1 @ [x])"
    by (simp_all add: linked_Cons)
  from Cons.prems obtain w where y: "cached m y = Some b"
    "node_value m y = Some (key_of m y, w)" "key_of m y \<noteq> k" "y \<noteq> Elist m" by auto
  have "erase_loop m b k y (hd (r1 @ [x])) =
           (case erase_found m b (last (y # r1)) x of Inl er \<Rightarrow> Some (Inl er, m)
            | Inr m' \<Rightarrow> Some (Inr (), m'))"
    using Cons.IH[OF l] Cons.prems by simp
  then show ?case
    by (subst erase_loop.simps) (simp add: y n)
qed

lemma wfm_erase_found:
  assumes "well_formed m xs" "x \<in> set xs" "key_of m x = k"
  shows "\<exists>m' ys zs. erase m k = Some (Inr (), m') \<and> xs = ys @ x # zs \<and> well_formed m' (ys @ zs) \<and>
           m' = m\<lparr>next_node := next_node m', cached := (cached m)(x := None),
                  node_value := (node_value m)(x := None), m_size := m_size m - 1,
                  buckets := buckets m'\<rparr>"
proof -
  let ?n = "buckets_count m" and ?e = "Elist m" and ?c = "cached_of m"
  let ?b = "hasher m k mod ?n"
  note nd = wfm_node[OF assms(1)]
  have n: "0 < ?n" using nd(5)[OF assms(2)] .
  have b: "?b < ?n" using n by simp
  have cx: "?c x = ?b" using nd(3)[OF assms(2)] assms(3) by simp
  from wfm_bucket[OF assms(1) b] obtain a where a: "bucket_read m ?b = Some a"
    and c: "if a = 0 then ?b \<notin> ?c ` set xs
      else \<exists>ys l. xs = ys @ l \<and> l \<noteq> [] \<and> ?c (hd l) = ?b \<and> ?b \<notin> ?c ` set ys \<and>
             a = last (?e # ys) \<and> next_node m a = Some (hd l) \<and>
             linked (next_node m) (l @ [?e]) \<and>
             set (takeWhile (\<lambda>x. ?c x = ?b) l) = {x \<in> set xs. ?c x = ?b}"
    by blast
  have "?b \<in> ?c ` set xs" using cx assms(2) by (metis image_eqI)
  with c have "a \<noteq> 0" by (auto split: if_splits)
  with c obtain ys l where *: "xs = ys @ l" "l \<noteq> []" "a = last (?e # ys)"
    "next_node m a = Some (hd l)" "linked (next_node m) (l @ [?e])"
    "set (takeWhile (\<lambda>x. ?c x = ?b) l) = {x \<in> set xs. ?c x = ?b}"
    by auto
  have "x \<in> set (takeWhile (\<lambda>x. ?c x = ?b) l)" using *(6) cx assms(2) by simp
  then obtain r1 r2 where r: "takeWhile (\<lambda>x. ?c x = ?b) l = r1 @ x # r2"
    by (auto simp: in_set_conv_decomp)
  define rest where "rest = r2 @ dropWhile (\<lambda>x. ?c x = ?b) l"
  have l: "l = r1 @ x # rest"
    using takeWhile_dropWhile_id[of "\<lambda>x. ?c x = ?b" l] r by (simp add: rest_def)
  have r1c: "\<forall>y\<in>set r1. ?c y = ?b"
    using set_takeWhileD[of _ "\<lambda>x. ?c x = ?b" l] r by auto
  have xs: "xs = (ys @ r1) @ x # rest" using * l by simp
  have d: "distinct xs" "?e \<notin> set xs" using assms(1) by (auto simp: well_formed_def well_formed_list_def traversal_Some_iff)
  have inj: "inj_on (key_of m) (set xs)" using wfm_keys_inj[OF assms(1)] .
  have r1k: "key_of m y \<noteq> k" if "y \<in> set r1" for y
  proof
    assume "key_of m y = k"
    moreover have "y \<in> set xs" "y \<noteq> x" using that d(1) xs by auto
    ultimately show False using inj assms(2,3) by (auto simp: inj_on_def)
  qed
  have p4: "\<forall>y\<in>set r1. cached m y = Some ?b \<and> (\<exists>v. node_value m y = Some (key_of m y, v)) \<and> key_of m y \<noteq> k"
  proof
    fix y assume y: "y \<in> set r1"
    then have "y \<in> set xs" using xs by simp
    from nd(1,2)[OF this] r1c y r1k[OF y]
    show "cached m y = Some ?b \<and> (\<exists>v. node_value m y = Some (key_of m y, v)) \<and> key_of m y \<noteq> k"
      by simp
  qed
  from nd(2)[OF assms(2)] assms(3) obtain v where vx: "node_value m x = Some (k, v)" by auto
  have "linked (next_node m) ((r1 @ [x]) @ (rest @ [?e]))" using *(5) l by simp
  from this[unfolded linked_append[of _ "r1 @ [x]" "rest @ [?e]"]]
  have p1: "linked (next_node m) (r1 @ [x])" by simp
  have hd: "hd l = hd (r1 @ [x])" using l by (cases r1) auto
  from erase_loop_found[OF p1 _ _ p4 _ vx, of a] d xs assms(2) nd(1)[OF assms(2)] cx
  have loop: "erase_loop m ?b k a (hd l) =
           (case erase_found m ?b (last (a # r1)) x of Inl er \<Rightarrow> Some (Inl er, m)
            | Inr m' \<Rightarrow> Some (Inr (), m'))"
    by (auto simp: hd)
  have la: "last (a # r1) = last (?e # (ys @ r1))" using *(3) by auto
  from erase_found_ok[OF assms(1) xs] obtain m' where
    m': "erase_found m (?c x) (last (?e # ys @ r1)) x = Inr m'" "well_formed m' ((ys @ r1) @ rest)"
      "m' = m\<lparr>next_node := next_node m', cached := (cached m)(x := None),
                  node_value := (node_value m)(x := None), m_size := m_size m - 1,
                  buckets := buckets m'\<rparr>"
    by blast
  have "erase m k = Some (Inr (), m')"
    using n a *(4) loop m'(1) la cx by (simp add: erase_def priv_hash_def)
  with xs m'(2,3) show ?thesis by blast
qed

lemma wfm_erase_absent:
  assumes "well_formed m xs" "0 < buckets_count m" "k \<notin> key_of m ` set xs"
  shows "erase m k =
           Some (Inl (if hasher m k mod buckets_count m \<in> cached_of m ` set xs
                      then KeyNotFound else UB), m)"
proof -
  let ?n = "buckets_count m" and ?e = "Elist m" and ?c = "cached_of m"
  let ?b = "hasher m k mod ?n"
  have b: "?b < ?n" using assms(2) by simp
  from wfm_bucket[OF assms(1) b] obtain a where a: "bucket_read m ?b = Some a"
    and c: "if a = 0 then ?b \<notin> ?c ` set xs
      else \<exists>ys l. xs = ys @ l \<and> l \<noteq> [] \<and> ?c (hd l) = ?b \<and> ?b \<notin> ?c ` set ys \<and>
             a = last (?e # ys) \<and> next_node m a = Some (hd l) \<and>
             linked (next_node m) (l @ [?e]) \<and>
             set (takeWhile (\<lambda>x. ?c x = ?b) l) = {x \<in> set xs. ?c x = ?b}"
    by blast
  show ?thesis
  proof (cases "a = 0")
    case True
    have "next_node m 0 = None" using assms(1) by (simp add: well_formed_def well_formed_list_def)
    then show ?thesis
      using True a c assms(2) by (simp add: erase_def priv_hash_def)
  next
    case False
    with c obtain ys l where *: "xs = ys @ l" "l \<noteq> []" "?c (hd l) = ?b"
      "next_node m a = Some (hd l)" "linked (next_node m) (l @ [?e])"
      by auto
    have e: "?e \<notin> set l" using assms(1) * by (simp add: well_formed_def traversal_Some_iff)
    have nd: "\<forall>x\<in>set l. cached m x = Some (?c x) \<and> (\<exists>v. node_value m x = Some (key_of m x, v))"
      using wfm_node(1,2)[OF assms(1)] * by simp
    have "set (takeWhile (\<lambda>x. ?c x = ?b) l) \<subseteq> set xs"
      using set_takeWhileD[of _ "\<lambda>x. ?c x = ?b" l] * by auto
    then have k: "k \<notin> key_of m ` set (takeWhile (\<lambda>x. ?c x = ?b) l)"
      using assms(3) by blast
    have "hd l \<in> set xs" using * by simp
    then have "?b \<in> ?c ` set xs" using *(3) by (metis image_eqI)
    then show ?thesis
      using assms(2) a False *(2,4) erase_loop_absent[OF *(5) e nd k, of a]
      by (simp add: erase_def priv_hash_def)
  qed
qed

lemma wfm_find:
  assumes "well_formed m xs" "0 < buckets_count m"
  shows "\<exists>p. find_um m k = Some (Inr p) \<and>
           (if k \<in> key_of m ` set xs then p \<in> set xs \<and> key_of m p = k else p = Elist m)"
proof -
  let ?b = "hasher m k mod buckets_count m" and ?c = "cached_of m"
  have b: "?b < buckets_count m" using assms(2) by simp
  have kb: "?c x = ?b" if "x \<in> set xs" "key_of m x = k" for x
    using wfm_node(3)[OF assms(1) that(1)] that(2) by simp
  from wfm_bucket[OF assms(1) b] obtain a where a: "bucket_read m ?b = Some a"
    and c: "if a = 0 then ?b \<notin> ?c ` set xs
      else \<exists>ys l. xs = ys @ l \<and> l \<noteq> [] \<and> ?c (hd l) = ?b \<and> ?b \<notin> ?c ` set ys \<and>
             a = last (Elist m # ys) \<and> next_node m a = Some (hd l) \<and>
             linked (next_node m) (l @ [Elist m]) \<and>
             set (takeWhile (\<lambda>x. ?c x = ?b) l) = {x \<in> set xs. ?c x = ?b}"
    by blast
  show ?thesis
  proof (cases "a = 0")
    case True
    with c have "?b \<notin> ?c ` set xs" by simp
    then have "k \<notin> key_of m ` set xs" using kb by (metis image_iff)
    then show ?thesis
      using a True assms(2) by (simp add: find_um_def priv_find_def priv_hash_def)
  next
    case False
    with c obtain ys l where *: "xs = ys @ l" "l \<noteq> []" "next_node m a = Some (hd l)"
      "linked (next_node m) (l @ [Elist m])"
      "set (takeWhile (\<lambda>x. ?c x = ?b) l) = {x \<in> set xs. ?c x = ?b}"
      by auto
    let ?run = "takeWhile (\<lambda>x. ?c x = ?b) l"
    let ?p = "case List.find (\<lambda>x. key_of m x = k) ?run of None \<Rightarrow> Elist m | Some x \<Rightarrow> x"
    have e: "Elist m \<notin> set l" using assms(1) * by (simp add: well_formed_def traversal_Some_iff)
    have nd: "\<forall>x\<in>set l. cached m x = Some (?c x) \<and> (\<exists>v. node_value m x = Some (key_of m x, v))"
      using wfm_node(1,2)[OF assms(1)] * by simp
    have run: "find_um m k = Some (Inr ?p)"
      using a False *(2,3) find_loop_run[OF *(4) e nd, of ?b k] assms(2)
      by (simp add: find_um_def priv_find_def priv_hash_def)
    have mem: "(k \<in> key_of m ` set ?run) = (k \<in> key_of m ` set xs)"
      unfolding *(5) using kb by auto
    have "if k \<in> key_of m ` set xs then ?p \<in> set xs \<and> key_of m ?p = k else ?p = Elist m"
    proof (cases "List.find (\<lambda>x. key_of m x = k) ?run")
      case None
      then have "k \<notin> key_of m ` set ?run" by (auto simp: find_None_iff)
      then show ?thesis using None mem by simp
    next
      case (Some x)
      then have "x \<in> set ?run" "key_of m x = k"
        by (auto simp: find_Some_iff)
      moreover have "set ?run \<subseteq> set xs" unfolding *(5) by auto
      ultimately show ?thesis using Some by auto
    qed
    with run show ?thesis by blast
  qed
qed

lemma anchors_Nil: "map (anchor_of c e []) [0..<n] = replicate n 0"
proof -
  have "anchor_of c e [] = (\<lambda>i. 0)" by (rule ext) simp
  then show ?thesis by (simp add: map_replicate_const)
qed

lemma wfm_ctor: "well_formed (Unordered_Map n h) []"
  unfolding well_formed_def well_formed_list_def traversal_Some_iff
  by (simp add: Unordered_Map_def create_Elist_def anchors_Nil)

lemma clear_loop_ok:
  assumes "linked (next_node m) (zs @ [Elist m])" "Elist m \<notin> set zs" "distinct zs"
    "buckets m = Some bs" "\<forall>x\<in>set zs. cached m x = Some (cached_of m x) \<and> cached_of m x < length bs"
  shows "\<exists>m'. clear_loop m (hd (zs @ [Elist m])) = Some (Inr (), m') \<and>
           buckets m' = Some (map (\<lambda>i. if i \<in> cached_of m ` set zs then 0 else bs ! i) [0..<length bs]) \<and>
           (\<forall>p. p \<notin> set zs \<longrightarrow> next_node m' p = next_node m p) \<and>
           m' = m\<lparr>next_node := next_node m', cached := cached m',
                  node_value := node_value m', buckets := buckets m'\<rparr>"
  using assms
proof (induction zs arbitrary: m bs)
  case Nil
  have "clear_loop m (Elist m) = Some (Inr (), m)" by (subst clear_loop.simps) simp
  moreover have "map (\<lambda>i. bs ! i) [0..<length bs] = bs" by (rule map_nth)
  ultimately show ?case using Nil.prems by (intro exI[of _ m]) simp
next
  case (Cons x zs)
  let ?e = "Elist m" and ?c = "cached_of m x"
  from Cons.prems have n: "next_node m x = Some (hd (zs @ [?e]))"
    and l: "linked (next_node m) (zs @ [?e])"
    and x: "x \<noteq> ?e" "x \<notin> set zs" "cached m x = Some ?c" "?c < length bs"
    by (simp_all add: linked_Cons)
  define M where "M = delete_Node (m\<lparr>buckets := Some (bs[?c := 0])\<rparr>) x"
  have M: "Elist M = ?e" "next_node M = (next_node m)(x := None)" "cached M = (cached m)(x := None)"
    "buckets M = Some (bs[?c := 0])"
    by (simp_all add: M_def delete_Node_def)
  have step: "clear_loop m x = clear_loop M (hd (zs @ [?e]))"
    using n x Cons.prems(4)
    by (subst clear_loop.simps) (simp add: Let_def bucket_write_def arr_write_def M_def)
  have same: "cached_of M y = cached_of m y" if "y \<in> set zs" for y
    by (rule cached_of_eq) (use that x(2) in \<open>auto simp: M\<close>)
  have p1: "linked (next_node M) (zs @ [Elist M])"
    unfolding M using l x(2) by (simp add: linked_upd)
  have p5: "\<forall>y\<in>set zs. cached M y = Some (cached_of M y) \<and> cached_of M y < length (bs[?c := 0])"
    using Cons.prems(5) same x(2) by (auto simp: M)
  from Cons.IH[OF p1 _ _ M(4) p5] Cons.prems(2,3)
  obtain m' where r: "clear_loop M (hd (zs @ [?e])) = Some (Inr (), m')"
    "buckets m' = Some (map (\<lambda>i. if i \<in> cached_of M ` set zs then 0 else (bs[?c := 0]) ! i)
        [0..<length bs])"
    "\<forall>p. p \<notin> set zs \<longrightarrow> next_node m' p = next_node M p"
    "m' = M\<lparr>next_node := next_node m', cached := cached m',
                  node_value := node_value m', buckets := buckets m'\<rparr>"
    by (auto simp: M)
  have img: "cached_of M ` set zs = cached_of m ` set zs" using same by auto
  have b: "map (\<lambda>i. if i \<in> cached_of M ` set zs then 0 else (bs[?c := 0]) ! i) [0..<length bs]
      = map (\<lambda>i. if i \<in> cached_of m ` set (x # zs) then 0 else bs ! i) [0..<length bs]"
    unfolding img by (auto simp: nth_list_update)
  have "m' = m\<lparr>next_node := next_node m', cached := cached m',
                  node_value := node_value m', buckets := buckets m'\<rparr>"
    by (subst r(4)) (simp add: M_def delete_Node_def)
  moreover have "\<forall>p. p \<notin> set (x # zs) \<longrightarrow> next_node m' p = next_node m p"
    using r(3) by (simp add: M)
  ultimately show ?case
    using step r(1,2) b by (intro exI[of _ m']) simp
qed

lemma wfm_clear:
  assumes "well_formed m xs"
  shows "\<exists>m'. clear m = Some (Inr (), m') \<and> well_formed m' [] \<and>
           m' = m\<lparr>next_node := next_node m', cached := cached m',
                  node_value := node_value m', buckets := buckets m', m_size := 0\<rparr> \<and>
           (xs = [] \<longrightarrow> m' = m)"
proof -
  let ?e = "Elist m" and ?c = "cached_of m" and ?n = "buckets_count m"
  let ?bs = "map (anchor_of ?c ?e xs) [0..<?n]"
  note c = wfm_core[OF assms]
  note f = wfm_fresh[OF assms]
  have t: "linked (next_node m) (?e # xs @ [?e])" "distinct xs" "next_node m 0 = None"
    using assms by (auto simp: well_formed_def traversal_Some_iff well_formed_list_def)
  have l: "linked (next_node m) (xs @ [?e])" using t(1) by (simp add: linked_Cons)
  have p5: "\<forall>x\<in>set xs. cached m x = Some (?c x) \<and> ?c x < length ?bs"
    using wfm_node(1,4)[OF assms] by simp
  from clear_loop_ok[OF l f(4) t(2) c(2) p5]
  obtain m1 where r: "clear_loop m (hd (xs @ [?e])) = Some (Inr (), m1)"
    "buckets m1 = Some (map (\<lambda>i. if i \<in> ?c ` set xs then 0 else ?bs ! i) [0..<length ?bs])"
    "\<forall>p. p \<notin> set xs \<longrightarrow> next_node m1 p = next_node m p"
    "m1 = m\<lparr>next_node := next_node m1, cached := cached m1,
                  node_value := node_value m1, buckets := buckets m1\<rparr>"
    by blast
  have m1: "Elist m1 = ?e" "fresh m1 = fresh m" "buckets_count m1 = ?n" "hasher m1 = hasher m"
    "m_size m1 = m_size m" "m_max_load_factor m1 = m_max_load_factor m"
    "U_Map.more m1 = U_Map.more m"
    by (subst r(4), simp)+
  define M where "M = m1\<lparr>next_node := (next_node m1)(Elist m1 \<mapsto> Elist m1), m_size := 0\<rparr>"
  have M: "Elist M = ?e" "fresh M = fresh m" "buckets_count M = ?n" "hasher M = hasher m"
    "m_size M = 0" "m_max_load_factor M = m_max_load_factor m" "U_Map.more M = U_Map.more m"
    "next_node M = (next_node m1)(?e \<mapsto> ?e)" "buckets M = buckets m1"
    "cached M = cached m1" "node_value M = node_value m1"
    by (simp_all add: M_def m1)
  have run: "clear m = Some (Inr (), M)"
    using f(5) wfm_first[OF assms] r(1) by (simp add: clear_def M_def)
  have "map (\<lambda>i. if i \<in> ?c ` set xs then 0 else ?bs ! i) [0..<length ?bs] = replicate ?n 0"
    by (rule nth_equalityI) (auto simp: anchor_of_absent)
  then have bs: "buckets M = Some (replicate ?n 0)" using r(2) by (simp add: M)
  have z: "next_node m1 0 = None" using r(3) t(3) c(1) by (simp add: core_def)
  have "well_formed M []"
    unfolding well_formed_def well_formed_list_def traversal_Some_iff
    using f assms bs z by (simp add: M anchors_Nil well_formed_def well_formed_list_def)
  moreover have "M = m\<lparr>next_node := next_node M, cached := cached M,
                  node_value := node_value M, buckets := buckets M, m_size := 0\<rparr>"
    by (rule U_Map.equality) (simp_all add: M)
  moreover have "M = m" if "xs = []"
  proof -
    have "clear_loop m ?e = Some (Inr (), m)" by (subst clear_loop.simps) simp
    with r(1) that have "m1 = m" by simp
    moreover have "next_node m ?e = Some ?e" using wfm_first[OF assms] that by simp
    then have "(next_node m)(?e \<mapsto> ?e) = next_node m" by (rule fun_upd_idem)
    moreover have "m_size m = 0" using assms that by (simp add: well_formed_def well_formed_list_def)
    ultimately show ?thesis by (simp add: M_def)
  qed
  ultimately show ?thesis using run by blast
qed

lemma lookup_Some_iff:
  assumes "well_formed m xs"
  shows "lookup m k = Some v \<longleftrightarrow> (\<exists>x\<in>set xs. node_value m x = Some (k, v))"
proof -
  have t: "traversal m = Some xs" using assms by (simp add: well_formed_def)
  note nd = wfm_node(2)[OF assms]
  have inj: "inj_on (key_of m) (set xs)" using wfm_keys_inj[OF assms] .
  show ?thesis
  proof (cases "List.find (\<lambda>x. key_of m x = k) xs")
    case None
    then have "\<forall>x\<in>set xs. key_of m x \<noteq> k" by (auto simp: find_None_iff)
    then have "\<not> (\<exists>x\<in>set xs. node_value m x = Some (k, v))"
      by (auto simp: key_of_def)
    then show ?thesis using None t by (simp add: lookup_def)
  next
    case (Some y)
    then have y: "y \<in> set xs" "key_of m y = k" by (auto simp: find_Some_iff)
    from nd[OF y(1)] y(2) obtain w where w: "node_value m y = Some (k, w)" by auto
    have "node_value m x = Some (k, v) \<Longrightarrow> x \<in> set xs \<Longrightarrow> x = y" for x
      using inj y by (auto simp: inj_on_def key_of_def)
    then have "(\<exists>x\<in>set xs. node_value m x = Some (k, v)) = (w = v)"
      using w y(1) by auto
    then show ?thesis using Some t w by (simp add: lookup_def)
  qed
qed

lemma lookup_None_iff:
  assumes "well_formed m xs"
  shows "lookup m k = None \<longleftrightarrow> k \<notin> key_of m ` set xs"
proof -
  have "(\<exists>v. lookup m k = Some v) \<longleftrightarrow> k \<in> key_of m ` set xs"
    unfolding lookup_Some_iff[OF assms]
    using wfm_node(2)[OF assms] by (force simp: key_of_def)
  then show ?thesis by (cases "lookup m k") auto
qed

lemma option_eqI: "(\<And>w. a = Some w \<longleftrightarrow> b = Some w) \<Longrightarrow> a = b"
  by (cases a; cases b) auto

lemma lookup_insert:
  assumes "well_formed m xs" "well_formed m' xs'" "set xs' = insert p (set xs)" "p \<notin> set xs"
    "node_value m' = (node_value m)(p \<mapsto> (k, v))" "k \<notin> key_of m ` set xs"
  shows "lookup m' = (lookup m)(k \<mapsto> v)"
proof (rule ext, rule option_eqI)
  fix k2 w
  have "(\<exists>x\<in>set xs'. node_value m' x = Some (k2, w)) \<longleftrightarrow>
          (k2 = k \<and> w = v) \<or> (\<exists>x\<in>set xs. node_value m x = Some (k2, w))"
    unfolding assms(3,5) using assms(4) by auto
  moreover have "\<not> (\<exists>x\<in>set xs. node_value m x = Some (k, w))"
    using assms(6) by (force simp: key_of_def)
  ultimately show "lookup m' k2 = Some w \<longleftrightarrow> ((lookup m)(k \<mapsto> v)) k2 = Some w"
    unfolding lookup_Some_iff[OF assms(2)] using lookup_Some_iff[OF assms(1), of k2 w]
    by auto
qed

lemma lookup_erase:
  assumes "well_formed m (ys @ x # zs)" "well_formed m' (ys @ zs)"
    "node_value m' = (node_value m)(x := None)"
  shows "lookup m' = (lookup m)(key_of m x := None)"
proof (rule ext, rule option_eqI)
  fix k2 w
  let ?xs = "ys @ x # zs"
  have d: "x \<notin> set (ys @ zs)" using assms(1) by (auto simp: well_formed_def well_formed_list_def)
  have inj: "inj_on (key_of m) (set ?xs)" using wfm_keys_inj[OF assms(1)] .
  have "(\<exists>y\<in>set (ys @ zs). node_value m' y = Some (k2, w)) \<longleftrightarrow>
          (\<exists>y\<in>set ?xs. y \<noteq> x \<and> node_value m y = Some (k2, w))"
    unfolding assms(3) using d by auto
  also have "\<dots> \<longleftrightarrow> k2 \<noteq> key_of m x \<and> (\<exists>y\<in>set ?xs. node_value m y = Some (k2, w))"
  proof -
    have "y = x" if "y \<in> set ?xs" "node_value m y = Some (key_of m x, w)" for y
    proof -
      have "key_of m y = key_of m x" using that(2) by (simp add: key_of_def)
      with inj that(1) show ?thesis by (auto simp: inj_on_def)
    qed
    moreover have "k2 = key_of m x" if "node_value m x = Some (k2, w)"
      using that by (simp add: key_of_def)
    ultimately show ?thesis by (metis (no_types, lifting))
  qed
  finally show "lookup m' k2 = Some w \<longleftrightarrow> ((lookup m)(key_of m x := None)) k2 = Some w"
    unfolding lookup_Some_iff[OF assms(2)] using lookup_Some_iff[OF assms(1), of k2 w]
    by auto
qed

lemma lookup_same:
  assumes "well_formed m xs" "well_formed m' xs'" "set xs' = set xs" "node_value m' = node_value m"
  shows "lookup m' = lookup m"
proof (rule ext, rule option_eqI)
  fix k2 w
  show "lookup m' k2 = Some w \<longleftrightarrow> lookup m k2 = Some w"
    unfolding lookup_Some_iff[OF assms(2)] lookup_Some_iff[OF assms(1)] assms(3,4) ..
qed


lemma invariantI: "well_formed m xs \<Longrightarrow> invariant m"
  unfolding invariant_iff by blast

lemma inv_insert_new:
  assumes "invariant m" "0 < buckets_count m" "lookup m k = None"
  shows "\<exists>m'. insert_um m (k, v) = Some (Inr (fresh m), m') \<and> invariant m' \<and>
           lookup m' = (lookup m)(k \<mapsto> v) \<and>
           node_value m' = (node_value m)(fresh m \<mapsto> (k, v)) \<and>
           (\<forall>xs. traversal m = Some xs \<longrightarrow> fresh m \<notin> set xs \<and>
              (\<exists>xs'. traversal m' = Some xs' \<and> set xs' = insert (fresh m) (set xs))) \<and>
           m_size m' = Suc (m_size m) \<and> m_max_load_factor m' = m_max_load_factor m \<and>
           hasher m' = hasher m \<and>
           buckets_count m' =
             (if m_max_load_factor m \<le> real (Suc (m_size m) div buckets_count m)
              then buckets_count m * 2 else buckets_count m)"
proof -
  from assms(1) obtain xs where w: "well_formed m xs" unfolding invariant_iff by blast
  then have t: "traversal m = Some xs" by (simp add: well_formed_def)
  have k: "k \<notin> key_of m ` set xs" using assms(3) lookup_None_iff[OF w] by simp
  from wfm_insert[OF w assms(2) k, of v] obtain m' xs' where
    r: "insert_um m (k, v) = Some (Inr (fresh m), m')" "well_formed m' xs'"
      "set xs' = insert (fresh m) (set xs)"
      "m' = m\<lparr>next_node := next_node m', cached := cached m',
                  node_value := (node_value m)(fresh m \<mapsto> (k, v)),
                  fresh := Suc (fresh m), m_size := Suc (m_size m),
                  buckets_count :=
                    (if m_max_load_factor m \<le> real (Suc (m_size m) div buckets_count m)
                     then buckets_count m * 2 else buckets_count m),
                  buckets := buckets m'\<rparr>"
    by blast
  have f: "node_value m' = (node_value m)(fresh m \<mapsto> (k, v))" "m_size m' = Suc (m_size m)"
    "m_max_load_factor m' = m_max_load_factor m" "hasher m' = hasher m"
    "buckets_count m' =
             (if m_max_load_factor m \<le> real (Suc (m_size m) div buckets_count m)
              then buckets_count m * 2 else buckets_count m)"
    by (subst r(4), simp)+
  have p: "fresh m \<notin> set xs" using wfm_fresh(1)[OF w] .
  have "lookup m' = (lookup m)(k \<mapsto> v)"
    using lookup_insert[OF w r(2,3) p f(1) k] .
  moreover have "traversal m' = Some xs'" using r(2) by (simp add: well_formed_def)
  ultimately show ?thesis
    using r(1,3) invariantI[OF r(2)] f t p by (intro exI[of _ m']) simp
qed

lemma inv_insert_dup:
  assumes "invariant m" "lookup m k \<noteq> None"
  shows "insert_um m (k, v) = Some (Inl DuplicateKey, m)"
proof -
  from assms(1) obtain xs where w: "well_formed m xs" unfolding invariant_iff by blast
  have "k \<in> key_of m ` set xs" using assms(2) lookup_None_iff[OF w] by simp
  from wfm_insert_dup[OF w this] show ?thesis .
qed

lemma insert_zero: "buckets_count m = 0 \<Longrightarrow> insert_um m kv = Some (Inl InvalidState, m)"
  by (simp add: insert_um_def priv_hash_def)

lemma erase_zero: "buckets_count m = 0 \<Longrightarrow> erase m k = Some (Inl InvalidState, m)"
  by (simp add: erase_def priv_hash_def)

lemma inv_present_buckets:
  assumes "invariant m" "lookup m k \<noteq> None"
  shows "0 < buckets_count m"
proof -
  from assms(1) obtain xs where w: "well_formed m xs" unfolding invariant_iff by blast
  have "k \<in> key_of m ` set xs" using assms(2) lookup_None_iff[OF w] by simp
  then obtain x where "x \<in> set xs" by auto
  from wfm_node(5)[OF w this] show ?thesis .
qed

lemma inv_erase:
  assumes "invariant m" "lookup m k \<noteq> None"
  shows "\<exists>m'. erase m k = Some (Inr (), m') \<and> invariant m' \<and>
           lookup m' = (lookup m)(k := None) \<and> m_size m' = m_size m - 1 \<and>
           buckets_count m' = buckets_count m \<and> hasher m' = hasher m \<and>
           m_max_load_factor m' = m_max_load_factor m"
proof -
  from assms(1) obtain xs where w: "well_formed m xs" unfolding invariant_iff by blast
  have "k \<in> key_of m ` set xs" using assms(2) lookup_None_iff[OF w] by simp
  then obtain x where x: "x \<in> set xs" "key_of m x = k" by auto
  from wfm_erase_found[OF w x] obtain m' ys zs where
    r: "erase m k = Some (Inr (), m')" "xs = ys @ x # zs" "well_formed m' (ys @ zs)"
      "m' = m\<lparr>next_node := next_node m', cached := (cached m)(x := None),
                  node_value := (node_value m)(x := None), m_size := m_size m - 1,
                  buckets := buckets m'\<rparr>"
    by blast
  have f: "node_value m' = (node_value m)(x := None)" "m_size m' = m_size m - 1"
    "buckets_count m' = buckets_count m" "hasher m' = hasher m"
    "m_max_load_factor m' = m_max_load_factor m"
    by (subst r(4), simp)+
  have "lookup m' = (lookup m)(k := None)"
    using lookup_erase[OF w[unfolded r(2)] r(3) f(1)] x(2) by simp
  then show ?thesis using r(1) invariantI[OF r(3)] f by (intro exI[of _ m']) simp
qed

lemma inv_erase_absent:
  assumes "invariant m" "0 < buckets_count m" "lookup m k = None"
  shows "erase m k = Some (Inl KeyNotFound, m) \<or> erase m k = Some (Inl UB, m)"
proof -
  from assms(1) obtain xs where w: "well_formed m xs" unfolding invariant_iff by blast
  have k: "k \<notin> key_of m ` set xs" using assms(3) lookup_None_iff[OF w] by simp
  from wfm_erase_absent[OF w assms(2) k] show ?thesis by (auto split: if_splits)
qed

lemma inv_rehash:
  assumes "invariant m" "0 < n \<or> m_size m = 0"
  shows "\<exists>m'. priv_rehash m n = Some (Inr (), m') \<and> invariant m' \<and> lookup m' = lookup m \<and>
           node_value m' = node_value m \<and> buckets_count m' = n \<and> m_size m' = m_size m \<and>
           hasher m' = hasher m \<and> m_max_load_factor m' = m_max_load_factor m \<and>
           (\<forall>xs. traversal m = Some xs \<longrightarrow> (\<exists>xs'. traversal m' = Some xs' \<and> set xs' = set xs))"
proof -
  from assms(1) obtain xs where w: "well_formed m xs" unfolding invariant_iff by blast
  then have t: "traversal m = Some xs" "m_size m = length xs"
    by (simp_all add: well_formed_def well_formed_list_def)
  have "xs \<noteq> [] \<longrightarrow> 0 < n" using assms(2) t(2) by auto
  from wfm_rehash[OF w this] obtain m' xs' where
    r: "priv_rehash m n = Some (Inr (), m')" "well_formed m' xs'" "set xs' = set xs"
      "m' = m\<lparr>next_node := next_node m', cached := cached m',
                  buckets_count := n, buckets := buckets m'\<rparr>"
    by blast
  have f: "node_value m' = node_value m" "buckets_count m' = n" "m_size m' = m_size m"
    "hasher m' = hasher m" "m_max_load_factor m' = m_max_load_factor m"
    by (subst r(4), simp)+
  have "lookup m' = lookup m" using lookup_same[OF w r(2,3) f(1)] .
  moreover have "traversal m' = Some xs'" using r(2) by (simp add: well_formed_def)
  ultimately show ?thesis
    using r(1,3) invariantI[OF r(2)] f t by (intro exI[of _ m']) simp
qed

lemma inv_size_zero:
  assumes "invariant m" "buckets_count m = 0"
  shows "m_size m = 0"
proof -
  from assms(1) obtain xs where w: "well_formed m xs" unfolding invariant_iff by blast
  then show ?thesis using assms(2) by (cases xs) (auto simp: well_formed_def well_formed_list_def)
qed

lemma inv_find:
  assumes "invariant m" "0 < buckets_count m"
  shows "\<exists>p. find_um m k = Some (Inr p) \<and>
           (case lookup m k of None \<Rightarrow> p = end_um m | Some v \<Rightarrow> deref m p = Some (k, v))"
proof -
  from assms(1) obtain xs where w: "well_formed m xs" unfolding invariant_iff by blast
  from wfm_find[OF w assms(2), of k] obtain p where
    p: "find_um m k = Some (Inr p)"
      "if k \<in> key_of m ` set xs then p \<in> set xs \<and> key_of m p = k else p = Elist m"
    by blast
  show ?thesis
  proof (cases "lookup m k")
    case None
    then have "k \<notin> key_of m ` set xs" using lookup_None_iff[OF w] by simp
    with p None show ?thesis by (simp add: end_um_def)
  next
    case (Some v)
    then obtain x where x: "x \<in> set xs" "node_value m x = Some (k, v)"
      using lookup_Some_iff[OF w] by blast
    then have kx: "key_of m x = k" by (simp add: key_of_def)
    then have "k \<in> key_of m ` set xs" using x(1) by (metis image_eqI)
    with p have "p \<in> set xs" "key_of m p = k" by simp_all
    with wfm_keys_inj[OF w] x(1) kx have "p = x" by (auto simp: inj_on_def)
    with p(1) x(2) Some show ?thesis by (simp add: deref_def)
  qed
qed

lemma inv_clear:
  assumes "invariant m"
  shows "\<exists>m'. clear m = Some (Inr (), m') \<and> invariant m' \<and> traversal m' = Some [] \<and>
           m_size m' = 0 \<and> buckets_count m' = buckets_count m \<and>
           (\<exists>bs. buckets m' = Some bs \<and> length bs = buckets_count m) \<and>
           (m_size m = 0 \<longrightarrow> m' = m)"
proof -
  from assms(1) obtain xs where w: "well_formed m xs" unfolding invariant_iff by blast
  from wfm_clear[OF w] obtain m' where
    r: "clear m = Some (Inr (), m')" "well_formed m' []"
      "m' = m\<lparr>next_node := next_node m', cached := cached m',
                  node_value := node_value m', buckets := buckets m', m_size := 0\<rparr>"
      "xs = [] \<longrightarrow> m' = m"
    by blast
  have f: "m_size m' = 0" "buckets_count m' = buckets_count m"
    by (subst r(3), simp)+
  have "m_size m = length xs" using w by (simp add: well_formed_def well_formed_list_def)
  then have "m_size m = 0 \<longrightarrow> m' = m" using r(4) by simp
  moreover have "traversal m' = Some []" using r(2) by (simp add: well_formed_def)
  moreover have "\<exists>bs. buckets m' = Some bs \<and> length bs = buckets_count m"
    using wfm_core(2)[OF r(2)] f(2) by simp
  ultimately show ?thesis using r(1) invariantI[OF r(2)] f by (intro exI[of _ m']) simp
qed

lemma run_from_takeWhile:
  assumes "linked (next_node m) (l @ [Elist m])" "Elist m \<notin> set l"
    "\<forall>x\<in>set l. cached m x = Some (cached_of m x)"
  shows "run_from m i (hd (l @ [Elist m])) = Some (takeWhile (\<lambda>x. cached_of m x = i) l)"
  using assms
proof (induction l)
  case Nil
  show ?case by (subst run_from.simps) simp
next
  case (Cons x l)
  from Cons.prems have n: "next_node m x = Some (hd (l @ [Elist m]))"
    and l: "linked (next_node m) (l @ [Elist m])"
    and x: "cached m x = Some (cached_of m x)" "x \<noteq> Elist m"
    by (simp_all add: linked_Cons)
  have ih: "run_from m i (hd (l @ [Elist m])) = Some (takeWhile (\<lambda>x. cached_of m x = i) l)"
    using Cons.IH[OF l] Cons.prems by simp
  show ?case
    by (subst run_from.simps) (simp add: x n ih)
qed

lemma inv_anchor:
  assumes "invariant m"
  shows "anchor_invariant m"
proof -
  from assms(1) obtain xs where w: "well_formed m xs" unfolding invariant_iff by blast
  then have t: "traversal m = Some xs" by (simp add: well_formed_def)
  let ?e = "Elist m" and ?c = "cached_of m"
  have h: "hashes_to m i x = (?c x = i)" if "x \<in> set xs" for x i
  proof -
    from wfm_node(2)[OF w that] obtain v where "node_value m x = Some (key_of m x, v)"
      by blast
    then show ?thesis using wfm_node(3)[OF w that] by (simp add: hashes_to_def)
  qed
  have "case bucket_read m i of None \<Rightarrow> False
           | Some a \<Rightarrow>
               if a = 0 then \<forall>x\<in>set xs. \<not> hashes_to m i x
               else (\<exists>ys run zs. bucket_run m i = Some run \<and> run \<noteq> [] \<and>
                       Elist m # xs = ys @ a # run @ zs \<and>
                       set run = {x \<in> set xs. hashes_to m i x})"
    if i: "i < buckets_count m" for i
  proof -
    from wfm_bucket[OF w i] obtain a where a: "bucket_read m i = Some a"
      and c: "if a = 0 then i \<notin> ?c ` set xs
        else \<exists>ys l. xs = ys @ l \<and> l \<noteq> [] \<and> ?c (hd l) = i \<and> i \<notin> ?c ` set ys \<and>
             a = last (?e # ys) \<and> next_node m a = Some (hd l) \<and>
             linked (next_node m) (l @ [?e]) \<and>
             set (takeWhile (\<lambda>x. ?c x = i) l) = {x \<in> set xs. ?c x = i}"
      by blast
    show ?thesis
    proof (cases "a = 0")
      case True
      with c have "i \<notin> ?c ` set xs" by simp
      then have "\<forall>x\<in>set xs. \<not> hashes_to m i x" using h by auto
      then show ?thesis using a True by simp
    next
      case False
      with c obtain ys l where *: "xs = ys @ l" "l \<noteq> []" "?c (hd l) = i"
        "a = last (?e # ys)" "next_node m a = Some (hd l)" "linked (next_node m) (l @ [?e])"
        "set (takeWhile (\<lambda>x. ?c x = i) l) = {x \<in> set xs. ?c x = i}"
        by auto
      let ?run = "takeWhile (\<lambda>x. ?c x = i) l"
      have e: "?e \<notin> set l" using wfm_fresh(4)[OF w] * by simp
      have nd: "\<forall>x\<in>set l. cached m x = Some (?c x)" using wfm_node(1)[OF w] * by simp
      have 1: "bucket_run m i = Some ?run"
        using a *(2,5) run_from_takeWhile[OF *(6) e nd, of i] by (simp add: bucket_run_def)
      have 2: "?run \<noteq> []" using *(2,3) by (cases l) auto
      have "?e # ys = butlast (?e # ys) @ [a]"
        unfolding *(4) by (rule append_butlast_last_id[symmetric]) simp
      then have "?e # xs = (butlast (?e # ys) @ [a]) @ ?run @ dropWhile (\<lambda>x. ?c x = i) l"
        using *(1) by (metis append_Cons takeWhile_dropWhile_id)
      then have 3: "?e # xs = butlast (?e # ys) @ a # ?run @ dropWhile (\<lambda>x. ?c x = i) l"
        by simp
      have 4: "set ?run = {x \<in> set xs. hashes_to m i x}" unfolding *(7) using h by auto
      from 1 2 3 4 have "\<exists>ys run zs. bucket_run m i = Some run \<and> run \<noteq> [] \<and>
                       Elist m # xs = ys @ a # run @ zs \<and>
                       set run = {x \<in> set xs. hashes_to m i x}" by blast
      then show ?thesis using a False by simp
    qed
  qed
  then show ?thesis unfolding anchor_invariant_def using t by blast
qed

lemma insert_all_ok:
  assumes "invariant m" "0 < buckets_count m" "m_max_load_factor m = 1"
    "distinct (map fst kvs)" "\<forall>kv\<in>set kvs. lookup m (fst kv) = None"
  shows "\<exists>m'. insert_all m kvs = Some (Inr (), m') \<and> invariant m' \<and> 0 < buckets_count m' \<and>
           buckets_count m' = grow (buckets_count m) (m_size m) (length kvs) \<and>
           m_size m' = m_size m + length kvs \<and>
           (\<forall>kv\<in>set kvs. lookup m' (fst kv) = Some (snd kv)) \<and>
           (\<forall>k. k \<notin> fst ` set kvs \<longrightarrow> lookup m' k = lookup m k)"
  using assms
proof (induction kvs arbitrary: m)
  case Nil
  then show ?case by simp
next
  case (Cons kv kvs)
  obtain k v where kv: "kv = (k, v)" by (cases kv)
  have l: "lookup m k = None" using Cons.prems(5) kv by simp
  from inv_insert_new[OF Cons.prems(1,2) l, of v] obtain m1 where
    m1: "insert_um m (k, v) = Some (Inr (fresh m), m1)" "invariant m1"
      "lookup m1 = (lookup m)(k \<mapsto> v)" "m_size m1 = Suc (m_size m)"
      "m_max_load_factor m1 = m_max_load_factor m"
      "buckets_count m1 =
         (if m_max_load_factor m \<le> real (Suc (m_size m) div buckets_count m)
          then buckets_count m * 2 else buckets_count m)"
    by blast
  have "(1 \<le> real (Suc (m_size m) div buckets_count m)) = (buckets_count m \<le> Suc (m_size m))"
    using Cons.prems(2) div_greater_zero_iff[of "Suc (m_size m)" "buckets_count m"]
    by (simp add: Suc_le_eq)
  then have b1: "buckets_count m1 =
      (if buckets_count m \<le> Suc (m_size m) then buckets_count m * 2 else buckets_count m)"
    using m1(6) Cons.prems(3) by simp
  then have p2: "0 < buckets_count m1" using Cons.prems(2) by simp
  have p3: "m_max_load_factor m1 = 1" using m1(5) Cons.prems(3) by simp
  have p4: "distinct (map fst kvs)" using Cons.prems(4) by simp
  have kn: "k \<notin> fst ` set kvs" using Cons.prems(4) kv by simp
  have p5: "\<forall>kv\<in>set kvs. lookup m1 (fst kv) = None"
    using Cons.prems(5) kn unfolding m1(3) by auto
  from Cons.IH[OF m1(2) p2 p3 p4 p5] obtain m' where
    r: "insert_all m1 kvs = Some (Inr (), m')" "invariant m'" "0 < buckets_count m'"
      "buckets_count m' = grow (buckets_count m1) (m_size m1) (length kvs)"
      "m_size m' = m_size m1 + length kvs"
      "\<forall>kv\<in>set kvs. lookup m' (fst kv) = Some (snd kv)"
      "\<forall>k. k \<notin> fst ` set kvs \<longrightarrow> lookup m' k = lookup m1 k"
    by blast
  have "insert_all m (kv # kvs) = Some (Inr (), m')" using m1(1) r(1) kv by simp
  moreover have "buckets_count m' = grow (buckets_count m) (m_size m) (length (kv # kvs))"
    using r(4) b1 m1(4) by simp
  moreover have "lookup m' k = Some v" using r(7) kn m1(3) by simp
  moreover have "\<forall>k'. k' \<notin> fst ` set (kv # kvs) \<longrightarrow> lookup m' k' = lookup m k'"
    using r(7) m1(3) kv by auto
  ultimately show ?case
    using r(2,3,5,6) m1(4) kv by (intro exI[of _ m']) auto
qed

lemma grow_10_11: "grow 10 0 11 = 20"
  by code_simp

lemma eleven_keys:
  assumes "distinct (map fst kvs)" "length kvs = 11"
  shows "\<exists>m'. insert_all (Unordered_Map 10 h) kvs = Some (Inr (), m') \<and>
           buckets_number m' = 20 \<and> size_um m' = 11 \<and>
           (\<forall>kv\<in>set kvs. \<exists>p. find_um m' (fst kv) = Some (Inr p) \<and> deref m' p = Some kv)"
proof -
  let ?m0 = "Unordered_Map 10 h :: ('a, 'b) U_Map"
  have i0: "invariant ?m0" by (rule invariantI[OF wfm_ctor])
  have b0: "0 < buckets_count ?m0" "m_size ?m0 = 0" "m_max_load_factor ?m0 = 1"
    "buckets_count ?m0 = 10"
    by (simp_all add: Unordered_Map_def create_Elist_def)
  have "lookup ?m0 k = None" for k
    using lookup_None_iff[of ?m0 "[]" k] wfm_ctor[of 10 h] by simp
  then have l0: "\<forall>kv\<in>set kvs. lookup ?m0 (fst kv) = None" by simp
  from insert_all_ok[OF i0 b0(1,3) assms(1) l0] obtain m' where
    r: "insert_all ?m0 kvs = Some (Inr (), m')" "invariant m'" "0 < buckets_count m'"
      "buckets_count m' = grow (buckets_count ?m0) (m_size ?m0) (length kvs)"
      "m_size m' = m_size ?m0 + length kvs"
      "\<forall>kv\<in>set kvs. lookup m' (fst kv) = Some (snd kv)"
    by blast
  have "\<exists>p. find_um m' (fst kv) = Some (Inr p) \<and> deref m' p = Some kv" if "kv \<in> set kvs" for kv
  proof -
    from inv_find[OF r(2,3), of "fst kv"] r(6) that show ?thesis by (cases kv) auto
  qed
  moreover have "buckets_count m' = 20" unfolding r(4) b0 assms(2) by (rule grow_10_11)
  ultimately show ?thesis
    using r(1,5) b0(2) assms(2) by (intro exI[of _ m']) (simp add: buckets_number_def size_um_def)
qed

lemma insert_load_factor:
  assumes i: "invariant m" and whole: "m_max_load_factor m = real N" "1 \<le> N"
    and before: "real (m_size m) \<le> m_max_load_factor m * real (buckets_count m)"
    and r: "insert_um m kv = Some (Inr it, m')"
  shows "real (m_size m') / real (buckets_count m') \<le> m_max_load_factor m'"
    and "buckets_count m' =
       (if m_max_load_factor m \<le> real (m_size m') / real (buckets_count m)
        then 2 * buckets_count m else buckets_count m)"
    and "m_size m' = Suc (m_size m)" and "m_max_load_factor m' = m_max_load_factor m"
proof -
  obtain k v where kv: "kv = (k, v)" by (cases kv)
  have n: "0 < buckets_count m"
    using r insert_zero[of m kv] by (cases "buckets_count m = 0") auto
  have l: "lookup m k = None"
    using r inv_insert_dup[OF i, of k v] kv by (cases "lookup m k") auto
  let ?s = "m_size m" and ?b = "buckets_count m"
  from inv_insert_new[OF i n l, of v] r kv
  have *: "m_size m' = Suc ?s" "m_max_load_factor m' = m_max_load_factor m"
    "buckets_count m' =
       (if m_max_load_factor m \<le> real (Suc ?s div ?b) then ?b * 2 else ?b)"
    by auto
  have q: "(real N \<le> real (Suc ?s div ?b)) = (N * ?b \<le> Suc ?s)"
    using n by (simp add: less_eq_div_iff_mult_less_eq)
  have q': "(real N \<le> real (Suc ?s) / real ?b) = (N * ?b \<le> Suc ?s)"
  proof -
    have "(real N \<le> real (Suc ?s) / real ?b) = (real N * real ?b \<le> real (Suc ?s))"
      using n by (simp add: pos_le_divide_eq)
    also have "\<dots> = (N * ?b \<le> Suc ?s)"
      by (metis of_nat_le_iff of_nat_mult)
    finally show ?thesis .
  qed
  show "m_size m' = Suc ?s" "m_max_load_factor m' = m_max_load_factor m" by (rule *)+
  show "buckets_count m' =
       (if m_max_load_factor m \<le> real (m_size m') / real ?b then 2 * ?b else ?b)"
    unfolding *(1,3) whole(1) q q' by simp
  define c where "c = N * ?b"
  have sb: "?s \<le> c"
    using before unfolding whole(1) c_def by (metis of_nat_le_iff of_nat_mult)
  have nb: "1 \<le> c" using whole(2) n by (simp add: Suc_le_eq c_def)
  have c2: "N * (?b * 2) = c + c" by (simp add: c_def)
  show "real (m_size m') / real (buckets_count m') \<le> m_max_load_factor m'"
  proof (cases "N * ?b \<le> Suc ?s")
    case True
    then have b': "buckets_count m' = ?b * 2" using *(3) q whole(1) by simp
    have "Suc ?s \<le> N * (?b * 2)" unfolding c2 using sb nb by linarith
    then have "real (Suc ?s) \<le> real N * real (?b * 2)"
      by (metis of_nat_le_iff of_nat_mult)
    then show ?thesis
      unfolding *(1,2) b' whole(1) using n by (simp add: pos_divide_le_eq)
  next
    case False
    then have b': "buckets_count m' = ?b" using *(3) q whole(1) by simp
    from False have "Suc ?s \<le> N * ?b" by simp
    then have "real (Suc ?s) \<le> real N * real ?b"
      by (metis of_nat_le_iff of_nat_mult)
    then show ?thesis
      unfolding *(1,2) b' whole(1) using n by (simp add: pos_divide_le_eq)
  qed
qed

section \<open>The anchor invariant\<close>

lemma two_in_three_invariant: "invariant two_in_three"
  by code_simp

lemma two_in_three_reached:
  "insert_all (Unordered_Map 3 id) [(0, 100), (6, 106)] = Some (Inr (), two_in_three)"
proof -
  have "map_option fst (insert_all (Unordered_Map 3 id :: (nat, nat) U_Map) [(0, 100), (6, 106)])
      = Some (Inr ())"
    by code_simp
  then obtain m where "insert_all (Unordered_Map 3 id :: (nat, nat) U_Map) [(0, 100), (6, 106)]
      = Some (Inr (), m)"
    by (cases "insert_all (Unordered_Map 3 id :: (nat, nat) U_Map) [(0, 100), (6, 106)]") auto
  then show ?thesis by (simp add: two_in_three_def)
qed

text \<open>
  C1: the constructor establishes the invariant, and \<^verbatim>\<open>insert\<close>, \<^verbatim>\<open>erase\<close>,
  \<^verbatim>\<open>reserve\<close> and \<^verbatim>\<open>__rehash\<close> (to a bucket count that is not zero, or of an empty
  container) return and keep it, whatever their arguments; a
  container with the invariant has the anchor property: each bucket with an anchor has
  its anchor right before its run in the traversal, and the run, walked from the
  anchor's successor while the cached index is the bucket's, is one stretch of the
  traversal that holds exactly the entries whose key hashes to the bucket. (\<^verbatim>\<open>erase\<close>
  of an absent key whose bucket is empty reads through a null anchor; nothing is said
  of the state after that.)
\<close>

theorem anchor_invariant_maintained:
  "invariant (Unordered_Map n h) \<and>
   (invariant m \<longrightarrow>
      anchor_invariant m \<and>
      (\<exists>r m'. insert_um m kv = Some (r, m') \<and> invariant m' \<and> anchor_invariant m') \<and>
      (\<exists>r m'. erase m k = Some (r, m') \<and> (r \<noteq> Inl UB \<longrightarrow> invariant m' \<and> anchor_invariant m')) \<and>
      (\<exists>r m'. reserve m n' = Some (r, m') \<and> invariant m' \<and> anchor_invariant m') \<and>
      (0 < n' \<or> size_um m = 0 \<longrightarrow>
         (\<exists>m'. priv_rehash m n' = Some (Inr (), m') \<and> invariant m' \<and> anchor_invariant m')))"
proof (intro conjI impI)
  show "invariant (Unordered_Map n h)" by (rule invariantI[OF wfm_ctor])
next
  assume i: "invariant m"
  show "anchor_invariant m" by (rule inv_anchor[OF i])
  show "\<exists>r m'. insert_um m kv = Some (r, m') \<and> invariant m' \<and> anchor_invariant m'"
  proof (cases "buckets_count m = 0")
    case True
    then show ?thesis using insert_zero[OF True, of kv] i inv_anchor[OF i] by blast
  next
    case False
    then have n: "0 < buckets_count m" by simp
    obtain k0 v0 where kv: "kv = (k0, v0)" by (cases kv)
    show ?thesis
    proof (cases "lookup m k0")
      case None
      from inv_insert_new[OF i n None, of v0] obtain m' where
        "insert_um m (k0, v0) = Some (Inr (fresh m), m')" "invariant m'" by blast
      then show ?thesis using inv_anchor[of m'] unfolding kv by blast
    next
      case (Some w)
      then have "lookup m k0 \<noteq> None" by simp
      from inv_insert_dup[OF i this, of v0] show ?thesis
        using i inv_anchor[OF i] unfolding kv by blast
    qed
  qed
  show "\<exists>r m'. erase m k = Some (r, m') \<and> (r \<noteq> Inl UB \<longrightarrow> invariant m' \<and> anchor_invariant m')"
  proof (cases "buckets_count m = 0")
    case True
    then show ?thesis using erase_zero[OF True, of k] i inv_anchor[OF i] by blast
  next
    case False
    then have n: "0 < buckets_count m" by simp
    show ?thesis
    proof (cases "lookup m k")
      case None
      from inv_erase_absent[OF i n None] show ?thesis
        using i inv_anchor[OF i] by blast
    next
      case (Some w)
      then have "lookup m k \<noteq> None" by simp
      from inv_erase[OF i this] obtain m' where
        "erase m k = Some (Inr (), m')" "invariant m'" by blast
      then show ?thesis using inv_anchor[of m'] by blast
    qed
  qed
  show "\<exists>r m'. reserve m n' = Some (r, m') \<and> invariant m' \<and> anchor_invariant m'"
  proof (cases "n' < buckets_count m")
    case True
    then have "reserve m n' = Some (Inl InvalidArgument, m)" by (simp add: reserve_def)
    then show ?thesis using i inv_anchor[OF i] by blast
  next
    case False
    have "0 < n' \<or> m_size m = 0"
    proof (cases "n' = 0")
      case True
      with False have "buckets_count m = 0" by simp
      from inv_size_zero[OF i this] show ?thesis by simp
    qed simp
    from inv_rehash[OF i this] obtain m' where
      "priv_rehash m n' = Some (Inr (), m')" "invariant m'" by blast
    then show ?thesis using False inv_anchor[of m'] by (auto simp: reserve_def)
  qed
  assume "0 < n' \<or> size_um m = 0"
  then have "0 < n' \<or> m_size m = 0" by (simp add: size_um_def)
  from inv_rehash[OF i this] obtain m' where
    "priv_rehash m n' = Some (Inr (), m')" "invariant m'" by blast
  then show "\<exists>m'. priv_rehash m n' = Some (Inr (), m') \<and> invariant m' \<and> anchor_invariant m'"
    using inv_anchor[of m'] by blast
qed

theorem anchor_invariant_maintained_witness:
  "invariant two_in_three \<and> anchor_invariant two_in_three \<and>
   (\<exists>r m'. insert_um two_in_three (1, 101) = Some (r, m') \<and> invariant m' \<and> anchor_invariant m') \<and>
   (\<exists>r m'. erase two_in_three 6 = Some (r, m') \<and>
      (r \<noteq> Inl UB \<longrightarrow> invariant m' \<and> anchor_invariant m')) \<and>
   (\<exists>r m'. reserve two_in_three 7 = Some (r, m') \<and> invariant m' \<and> anchor_invariant m') \<and>
   ((0::nat) < 7 \<and>
    (\<exists>m'. priv_rehash two_in_three 7 = Some (Inr (), m') \<and> invariant m' \<and> anchor_invariant m'))"
  using anchor_invariant_maintained[of 3 id two_in_three "(1, 101)" 6 7] two_in_three_invariant
  by simp (elim conjE, intro conjI, assumption+)

section \<open>Rejected arguments\<close>

text \<open>
  C8: \<^verbatim>\<open>reserve(n)\<close> with \<open>n\<close> below the current bucket count raises
  \<open>InvalidArgument\<close>, and so does setting a max load factor \<open>f \<le> 0\<close>; in both cases
  the container that comes back with the error is the one that went in, field by field.
\<close>

theorem reserve_and_load_factor_reject:
  "(new_buckets_count < buckets_count m \<longrightarrow>
      reserve m new_buckets_count = Some (Inl InvalidArgument, m)) \<and>
   (f \<le> 0 \<longrightarrow> set_max_load_factor m f = (Inl InvalidArgument, m))"
  by (simp add: reserve_def set_max_load_factor_def)

theorem reserve_and_load_factor_reject_witness:
  "(5 < buckets_count (Unordered_Map 10 id :: (nat, nat) U_Map) \<and>
      reserve (Unordered_Map 10 id :: (nat, nat) U_Map) 5 =
        Some (Inl InvalidArgument, Unordered_Map 10 id)) \<and>
   ((0::real) \<le> 0 \<and>
      set_max_load_factor (Unordered_Map 10 id :: (nat, nat) U_Map) 0 =
        (Inl InvalidArgument, Unordered_Map 10 id))"
  using reserve_and_load_factor_reject[of 5 "Unordered_Map 10 id :: (nat, nat) U_Map" 0]
  by (simp add: Unordered_Map_def create_Elist_def)

section \<open>Removal of an absent key\<close>

text \<open>
  C2: \<^verbatim>\<open>erase\<close> of a key that is not in the container is to raise \<open>KeyNotFound\<close> and
  leave the container as it is, also when the key's bucket is empty. Evaluated on the
  container with ten buckets and no entry, \<^verbatim>\<open>erase(3)\<close> reads
  \<^verbatim>\<open>buckets[3]->next_node\<close> through the null anchor of the empty bucket 3: undefined
  behaviour, no exception. In a bucket that holds other entries (key 3 in
  \<open>two_in_three\<close>, whose bucket 0 holds the keys 0 and 6) the exception is raised and
  the size stays.
\<close>

theorem erase_absent_key_empty_bucket:
  "lookup (Unordered_Map 10 id :: (nat, nat) U_Map) 3 = None \<and>
   erase (Unordered_Map 10 id :: (nat, nat) U_Map) 3 = Some (Inl UB, Unordered_Map 10 id) \<and>
   lookup two_in_three 3 = None \<and>
   map_option (\<lambda>(r, m). (r, size_um m)) (erase two_in_three 3) = Some (Inl KeyNotFound, 2)"
proof -
  have "erase (Unordered_Map 10 id :: (nat, nat) U_Map) 3 = Some (Inl UB, Unordered_Map 10 id)"
    by (simp add: erase_def priv_hash_def Unordered_Map_def create_Elist_def bucket_read_def
        arr_read_def)
  moreover have "lookup (Unordered_Map 10 id :: (nat, nat) U_Map) 3 = None" by code_simp
  moreover have "lookup two_in_three 3 = None" by code_simp
  moreover have "map_option (\<lambda>(r, m). (r, size_um m)) (erase two_in_three 3)
      = Some (Inl KeyNotFound, 2)" by code_simp
  ultimately show ?thesis by blast
qed

section \<open>Equality\<close>

text \<open>
  C3: \<^verbatim>\<open>a == b\<close> is to return, without failing, whether \<open>a\<close> and \<open>b\<close> hold the same
  keys. With ten buckets each, \<open>a\<close> holding key 1 and \<open>b\<close> holding key 2, the
  comparison reads \<^verbatim>\<open>other.buckets[1]->next_node\<close> through the null anchor of \<open>b\<close>'s
  empty bucket 1: undefined behaviour. With \<open>a\<close> in ten buckets and \<open>b\<close> in twenty,
  both holding the keys 15 and 5 with the same values, it returns false: the cached
  index 5 of key 15 in \<open>a\<close> is looked up in \<open>b\<close>, where key 15 sits in bucket 15.
\<close>

theorem equals_null_anchor_and_bucket_counts:
  "(case insert_all (Unordered_Map 10 id :: (nat, nat) U_Map) [(1, 10)] of
      Some (Inr u, a) \<Rightarrow>
        (case insert_all (Unordered_Map 10 id :: (nat, nat) U_Map) [(2, 20)] of
           Some (Inr u, b) \<Rightarrow> equals a b
         | _ \<Rightarrow> None)
    | _ \<Rightarrow> None) = Some (Inl UB) \<and>
   (case insert_all (Unordered_Map 10 id :: (nat, nat) U_Map) [(15, 1), (5, 2)] of
      Some (Inr u, a) \<Rightarrow>
        (case insert_all (Unordered_Map 20 id :: (nat, nat) U_Map) [(15, 1), (5, 2)] of
           Some (Inr u, b) \<Rightarrow> equals a b
         | _ \<Rightarrow> None)
    | _ \<Rightarrow> None) = Some (Inr False)"
  by code_simp

section \<open>Duplicate keys\<close>

text \<open>
  C5: inserting a key that the container holds raises \<open>DuplicateKey\<close> and returns the
  container as it was, field by field: same size, same store (no node created, the
  entry's value kept). In particular, after a first insertion into a fresh container
  the second insertion of the same key fails and the size is 1.
\<close>

theorem insert_duplicate_rejected:
  "(invariant m \<and> lookup m k \<noteq> None \<longrightarrow> insert_um m (k, v) = Some (Inl DuplicateKey, m)) \<and>
   (0 < n \<longrightarrow>
      (\<exists>it m1. insert_um (Unordered_Map n h) (k, v) = Some (Inr it, m1) \<and>
         insert_um m1 (k, v') = Some (Inl DuplicateKey, m1) \<and> size_um m1 = 1))"
proof (intro conjI impI)
  assume "invariant m \<and> lookup m k \<noteq> None"
  then have "invariant m" "lookup m k \<noteq> None" by simp_all
  then show "insert_um m (k, v) = Some (Inl DuplicateKey, m)"
    by (rule inv_insert_dup)
next
  assume n: "0 < n"
  let ?m0 = "Unordered_Map n h :: ('a, 'b) U_Map"
  have i0: "invariant ?m0" by (rule invariantI[OF wfm_ctor])
  have b0: "0 < buckets_count ?m0" "m_size ?m0 = 0"
    using n by (simp_all add: Unordered_Map_def create_Elist_def)
  have l0: "lookup ?m0 k = None" using lookup_None_iff[OF wfm_ctor, of n h k] by simp
  from inv_insert_new[OF i0 b0(1) l0, of v] obtain m1 where
    m1: "insert_um ?m0 (k, v) = Some (Inr (fresh ?m0), m1)" "invariant m1"
      "lookup m1 = (lookup ?m0)(k \<mapsto> v)" "m_size m1 = Suc (m_size ?m0)"
    by blast
  have "lookup m1 k \<noteq> None" using m1(3) by simp
  from inv_insert_dup[OF m1(2) this, of v'] m1(1,4) b0(2)
  show "\<exists>it m1. insert_um ?m0 (k, v) = Some (Inr it, m1) \<and>
         insert_um m1 (k, v') = Some (Inl DuplicateKey, m1) \<and> size_um m1 = 1"
    by (auto simp: size_um_def)
qed

lemma two_in_three_has_6: "lookup two_in_three 6 \<noteq> None"
  by code_simp

theorem insert_duplicate_rejected_witness:
  "(invariant two_in_three \<and> lookup two_in_three 6 \<noteq> None \<and>
      insert_um two_in_three (6, 7) = Some (Inl DuplicateKey, two_in_three)) \<and>
   ((0::nat) < 10 \<and>
      (\<exists>it m1. insert_um (Unordered_Map 10 id :: (nat, nat) U_Map) (6, 7) = Some (Inr it, m1) \<and>
         insert_um m1 (6, 8) = Some (Inl DuplicateKey, m1) \<and> size_um m1 = 1))"
  using insert_duplicate_rejected[where m = two_in_three and k = 6 and v = 7 and n = 10
      and h = id and v' = 8]
    two_in_three_invariant two_in_three_has_6
  by simp

section \<open>Lookup\<close>

text \<open>
  C6 as the claim states it fails on a container constructed with zero buckets:
  \<^verbatim>\<open>find\<close> of a key that is not there does not return the end marker, it fails in
  \<^verbatim>\<open>__hash\<close>.
\<close>

theorem find_zero_buckets_counterexample:
  "lookup (Unordered_Map 0 id :: (nat, nat) U_Map) 3 = None \<and>
   find_um (Unordered_Map 0 id :: (nat, nat) U_Map) 3 \<noteq>
     Some (Inr (end_um (Unordered_Map 0 id :: (nat, nat) U_Map))) \<and>
   find_um (Unordered_Map 0 id :: (nat, nat) U_Map) 3 = Some (Inl Terminate)"
  by code_simp

text \<open>
  C6, amended: in a container with at least one bucket \<^verbatim>\<open>find(k)\<close> returns; its result
  dereferences to \<open>(k, v)\<close> when the container holds \<open>v\<close> for \<open>k\<close>, and is the end
  marker when it holds nothing for \<open>k\<close>. What the container holds is set by a
  successful \<^verbatim>\<open>insert\<close> of \<open>(k, v)\<close>, removed by a successful \<^verbatim>\<open>erase\<close> of \<open>k\<close>, and
  otherwise left as it is by \<^verbatim>\<open>insert\<close>, \<^verbatim>\<open>erase\<close> and \<^verbatim>\<open>reserve\<close>, which keep the
  invariant; after a successful \<^verbatim>\<open>insert\<close> there is at least one bucket.
\<close>

theorem find_round_trip:
  "(invariant m \<and> 0 < buckets_count m \<longrightarrow>
      (\<exists>p. find_um m k = Some (Inr p) \<and>
         (case lookup m k of None \<Rightarrow> p = end_um m | Some v \<Rightarrow> deref m p = Some (k, v)))) \<and>
   (invariant m \<and> insert_um m (k', v') = Some (Inr it, m') \<longrightarrow>
      invariant m' \<and> 0 < buckets_count m' \<and> lookup m' = (lookup m)(k' \<mapsto> v')) \<and>
   (invariant m \<and> erase m k' = Some (Inr (), m') \<longrightarrow>
      invariant m' \<and> buckets_count m' = buckets_count m \<and> lookup m' = (lookup m)(k' := None)) \<and>
   (invariant m \<and> reserve m n = Some (Inr (), m') \<longrightarrow>
      invariant m' \<and> buckets_count m' = n \<and> buckets_count m \<le> n \<and> lookup m' = lookup m)"
proof (intro conjI impI)
  assume "invariant m \<and> 0 < buckets_count m"
  then have "invariant m" "0 < buckets_count m" by simp_all
  then show "\<exists>p. find_um m k = Some (Inr p) \<and>
         (case lookup m k of None \<Rightarrow> p = end_um m | Some v \<Rightarrow> deref m p = Some (k, v))"
    by (rule inv_find)
next
  assume a: "invariant m \<and> insert_um m (k', v') = Some (Inr it, m')"
  then have i: "invariant m" and r: "insert_um m (k', v') = Some (Inr it, m')" by simp_all
  have n: "0 < buckets_count m"
    using r insert_zero[of m "(k', v')"] by (cases "buckets_count m = 0") auto
  have l: "lookup m k' = None"
    using r inv_insert_dup[OF i, of k' v'] by (cases "lookup m k'") auto
  from inv_insert_new[OF i n l, of v'] r
  have *: "invariant m'" "lookup m' = (lookup m)(k' \<mapsto> v')"
    "buckets_count m' =
       (if m_max_load_factor m \<le> real (Suc (m_size m) div buckets_count m)
        then buckets_count m * 2 else buckets_count m)"
    by auto
  show "invariant m'" by (rule *)
  show "lookup m' = (lookup m)(k' \<mapsto> v')" by (rule *)
  show "0 < buckets_count m'" unfolding *(3) using n by simp
next
  assume a: "invariant m \<and> erase m k' = Some (Inr (), m')"
  then have i: "invariant m" and r: "erase m k' = Some (Inr (), m')" by simp_all
  have n: "0 < buckets_count m"
    using r erase_zero[of m k'] by (cases "buckets_count m = 0") auto
  have l: "lookup m k' \<noteq> None"
    using r inv_erase_absent[OF i n, of k'] by (cases "lookup m k'") auto
  from inv_erase[OF i l] r
  show "invariant m'" "buckets_count m' = buckets_count m" "lookup m' = (lookup m)(k' := None)"
    by auto
next
  assume a: "invariant m \<and> reserve m n = Some (Inr (), m')"
  then have i: "invariant m" and r: "reserve m n = Some (Inr (), m')" by simp_all
  have ge: "\<not> n < buckets_count m" and rh: "priv_rehash m n = Some (Inr (), m')"
    using r by (auto simp: reserve_def split: if_splits)
  have "0 < n \<or> m_size m = 0"
  proof (cases "n = 0")
    case True
    with ge have "buckets_count m = 0" by simp
    from inv_size_zero[OF i this] show ?thesis by simp
  qed simp
  from inv_rehash[OF i this] rh
  show "invariant m'" "buckets_count m' = n" "lookup m' = lookup m" by auto
  show "buckets_count m \<le> n" using ge by simp
qed

lemma two_in_three_facts:
  "0 < buckets_count two_in_three"
  "insert_um two_in_three (2, 102) \<noteq> None"
  "fst (the (insert_um two_in_three (2, 102))) = Inr 4"
  "fst (the (erase two_in_three 6)) = Inr ()" "erase two_in_three 6 \<noteq> None"
  "fst (the (reserve two_in_three 7)) = Inr ()" "reserve two_in_three 7 \<noteq> None"
  by code_simp+

theorem find_round_trip_witness:
  "(invariant two_in_three \<and> 0 < buckets_count two_in_three \<and>
      (\<exists>p. find_um two_in_three 6 = Some (Inr p) \<and>
         (case lookup two_in_three 6 of None \<Rightarrow> p = end_um two_in_three
          | Some v \<Rightarrow> deref two_in_three p = Some (6, v)))) \<and>
   (\<exists>m'. invariant two_in_three \<and> insert_um two_in_three (2, 102) = Some (Inr 4, m') \<and>
      invariant m' \<and> 0 < buckets_count m' \<and> lookup m' = (lookup two_in_three)(2 \<mapsto> 102)) \<and>
   (\<exists>m'. invariant two_in_three \<and> erase two_in_three 6 = Some (Inr (), m') \<and>
      invariant m' \<and> buckets_count m' = buckets_count two_in_three \<and>
      lookup m' = (lookup two_in_three)(6 := None)) \<and>
   (\<exists>m'. invariant two_in_three \<and> reserve two_in_three 7 = Some (Inr (), m') \<and>
      invariant m' \<and> buckets_count m' = 7 \<and> buckets_count two_in_three \<le> 7 \<and>
      lookup m' = lookup two_in_three)"
proof -
  obtain m1 where m1: "insert_um two_in_three (2, 102) = Some (Inr 4, m1)"
    using two_in_three_facts(2,3) by (cases "insert_um two_in_three (2, 102)") auto
  obtain m2 where m2: "erase two_in_three 6 = Some (Inr (), m2)"
    using two_in_three_facts(4,5) by (cases "erase two_in_three 6") auto
  obtain m3 where m3: "reserve two_in_three 7 = Some (Inr (), m3)"
    using two_in_three_facts(6,7) by (cases "reserve two_in_three 7") auto
  show ?thesis
    using find_round_trip[where m = two_in_three and k = 6 and k' = 2 and v' = 102 and it = 4
        and m' = m1]
      find_round_trip[where m = two_in_three and k' = 6 and m' = m2]
      find_round_trip[where m = two_in_three and n = 7 and m' = m3]
      two_in_three_invariant two_in_three_facts(1) m1 m2 m3
    by simp
qed

section \<open>Zero buckets\<close>

text \<open>
  C7 as the claim states it fails twice. A container constructed with zero buckets has
  bucket count zero and was never moved from, while the move constructor leaves the
  bucket count of its source as it was; and on zero buckets \<^verbatim>\<open>find\<close>, \<^verbatim>\<open>contains\<close>,
  \<^verbatim>\<open>at\<close> and \<^verbatim>\<open>operator[]\<close> do not raise \<open>InvalidState\<close>.
\<close>

theorem zero_buckets_counterexample:
  "buckets_count (Unordered_Map 0 id :: (nat, nat) U_Map) = 0 \<and>
   buckets_count (snd (move_ctor (Unordered_Map 10 id :: (nat, nat) U_Map))) = 10 \<and>
   find_um (Unordered_Map 0 id :: (nat, nat) U_Map) 3 \<noteq> Some (Inl InvalidState) \<and>
   contains_um (Unordered_Map 0 id :: (nat, nat) U_Map) 3 \<noteq> Some (Inl InvalidState) \<and>
   at_um (Unordered_Map 0 id :: (nat, nat) U_Map) 3 \<noteq> Some (Inl InvalidState) \<and>
   map_option fst (index_op (Unordered_Map 0 id :: (nat, nat) U_Map) 3 0) \<noteq>
     Some (Inl InvalidState)"
  by code_simp

text \<open>
  C7, amended: on a container with zero buckets \<^verbatim>\<open>insert\<close> and \<^verbatim>\<open>erase\<close> fail with
  \<open>InvalidState\<close> and return the container as it was; the constructor called with zero
  buckets gives such a container, and the move constructor passes the bucket count on
  and leaves the source's bucket count as it was.
\<close>

theorem zero_buckets_invalid_state:
  "(buckets_count m = 0 \<longrightarrow>
      insert_um m kv = Some (Inl InvalidState, m) \<and> erase m k = Some (Inl InvalidState, m)) \<and>
   buckets_count (Unordered_Map 0 h) = 0 \<and>
   buckets_count (fst (move_ctor m)) = buckets_count m \<and>
   buckets_count (snd (move_ctor m)) = buckets_count m"
  by (simp add: insert_zero erase_zero Unordered_Map_def create_Elist_def move_ctor_def)

theorem zero_buckets_invalid_state_witness:
  "(buckets_count (Unordered_Map 0 id :: (nat, nat) U_Map) = 0 \<and>
      insert_um (Unordered_Map 0 id :: (nat, nat) U_Map) (3, 4) =
        Some (Inl InvalidState, Unordered_Map 0 id) \<and>
      erase (Unordered_Map 0 id :: (nat, nat) U_Map) 3 =
        Some (Inl InvalidState, Unordered_Map 0 id))"
  using zero_buckets_invalid_state[of "Unordered_Map 0 id :: (nat, nat) U_Map" "(3, 4)" 3]
  by (simp add: Unordered_Map_def create_Elist_def)

section \<open>Load factor\<close>

text \<open>
  C4 as the claim states it fails. One bucket, max load factor set to 3, two keys
  inserted, max load factor set to 1, a third key inserted: the insertion doubles the
  bucket count once, to 2, and leaves 3 entries in 2 buckets, above the max load factor
  1. Ten buckets, max load factor set to 1/2, six keys inserted: 6 entries in 10
  buckets, above 1/2, and no rehash.
\<close>

theorem load_factor_bound_counterexample:
  "(case insert_all (snd (set_max_load_factor (Unordered_Map 1 id :: (nat, nat) U_Map) 3))
           [(0, 0), (1, 1)] of
      Some (Inr u, m1) \<Rightarrow>
        (case insert_um (snd (set_max_load_factor m1 1)) (2, 2) of
           Some (Inr it, m2) \<Rightarrow>
             size_um m2 = 3 \<and> buckets_number m2 = 2 \<and> max_load_factor m2 = 1 \<and>
             \<not> real (size_um m2) / real (buckets_number m2) \<le> max_load_factor m2
         | _ \<Rightarrow> False)
    | _ \<Rightarrow> False) \<and>
   (case insert_all (snd (set_max_load_factor (Unordered_Map 10 id :: (nat, nat) U_Map) (1 / 2)))
           [(0, 0), (1, 1), (2, 2), (3, 3), (4, 4), (5, 5)] of
      Some (Inr u, m1) \<Rightarrow>
        size_um m1 = 6 \<and> buckets_number m1 = 10 \<and> max_load_factor m1 = 1 / 2 \<and>
        \<not> real (size_um m1) / real (buckets_number m1) \<le> max_load_factor m1
    | _ \<Rightarrow> False)"
  by code_simp

text \<open>
  C4, amended: for a max load factor that is a whole number, at least 1 (the default is
  1), and a container whose size is at most the max load factor times its bucket
  count, after every successful insertion the size divided by the bucket count is at
  most the max load factor; the insertion doubles the bucket count if it makes the
  size divided by the bucket count reach the max load factor, and leaves it otherwise.
  Inserting 11 pairs with distinct keys into a container constructed with 10 buckets,
  whatever the hash function, succeeds and leaves 20 buckets and 11 entries, and
  \<^verbatim>\<open>find\<close> of each key returns a position that dereferences to its pair.
\<close>

theorem load_factor_after_insert:
  "(invariant m \<and> max_load_factor m = real N \<and> 1 \<le> N \<and>
    real (size_um m) \<le> max_load_factor m * real (buckets_number m) \<and>
    insert_um m kv = Some (Inr it, m') \<longrightarrow>
      real (size_um m') / real (buckets_number m') \<le> max_load_factor m' \<and>
      buckets_number m' =
        (if max_load_factor m \<le> real (size_um m') / real (buckets_number m)
         then 2 * buckets_number m else buckets_number m)) \<and>
   (distinct (map fst kvs) \<and> length kvs = 11 \<longrightarrow>
      (\<exists>m'. insert_all (Unordered_Map 10 h) kvs = Some (Inr (), m') \<and>
         buckets_number m' = 20 \<and> size_um m' = 11 \<and>
         (\<forall>kv\<in>set kvs. \<exists>p. find_um m' (fst kv) = Some (Inr p) \<and> deref m' p = Some kv)))"
proof (intro conjI impI)
  assume a: "invariant m \<and> max_load_factor m = real N \<and> 1 \<le> N \<and>
    real (size_um m) \<le> max_load_factor m * real (buckets_number m) \<and>
    insert_um m kv = Some (Inr it, m')"
  then have p: "invariant m" "m_max_load_factor m = real N" "1 \<le> N"
    "real (m_size m) \<le> m_max_load_factor m * real (buckets_count m)"
    "insert_um m kv = Some (Inr it, m')"
    unfolding max_load_factor_def size_um_def buckets_number_def by blast+
  from insert_load_factor[OF p]
  show "real (size_um m') / real (buckets_number m') \<le> max_load_factor m'"
    and "buckets_number m' =
        (if max_load_factor m \<le> real (size_um m') / real (buckets_number m)
         then 2 * buckets_number m else buckets_number m)"
    by (simp_all add: max_load_factor_def size_um_def buckets_number_def)
next
  assume "distinct (map fst kvs) \<and> length kvs = 11"
  then have "distinct (map fst kvs)" "length kvs = 11" by simp_all
  then show "\<exists>m'. insert_all (Unordered_Map 10 h) kvs = Some (Inr (), m') \<and>
         buckets_number m' = 20 \<and> size_um m' = 11 \<and>
         (\<forall>kv\<in>set kvs. \<exists>p. find_um m' (fst kv) = Some (Inr p) \<and> deref m' p = Some kv)"
    by (rule eleven_keys)
qed

lemma two_in_three_sizes:
  "size_um two_in_three = 2" "buckets_number two_in_three = 3" "max_load_factor two_in_three = 1"
  by code_simp+

lemma two_in_three_insert_1:
  "insert_um two_in_three (1, 101) \<noteq> None"
  "fst (the (insert_um two_in_three (1, 101))) = Inr 4"
  "max_load_factor two_in_three = real 1"
  "real (size_um two_in_three) \<le> max_load_factor two_in_three * real (buckets_number two_in_three)"
  "distinct (map fst (map (\<lambda>k. (k, k + 100)) [0..<11]))"
  "length (map (\<lambda>k. (k, k + 100)) [0..<11]) = 11"
  by (code_simp, code_simp, simp_all add: two_in_three_sizes comp_def)

theorem load_factor_after_insert_witness:
  "(\<exists>m'. invariant two_in_three \<and> max_load_factor two_in_three = real 1 \<and> (1::nat) \<le> 1 \<and>
      real (size_um two_in_three) \<le>
        max_load_factor two_in_three * real (buckets_number two_in_three) \<and>
      insert_um two_in_three (1, 101) = Some (Inr 4, m') \<and>
      real (size_um m') / real (buckets_number m') \<le> max_load_factor m' \<and>
      buckets_number m' =
        (if max_load_factor two_in_three \<le> real (size_um m') / real (buckets_number two_in_three)
         then 2 * buckets_number two_in_three else buckets_number two_in_three)) \<and>
   (distinct (map fst (map (\<lambda>k. (k, k + 100)) [0..<11])) \<and>
    length (map (\<lambda>k. (k, k + 100)) [0..<11]) = 11 \<and>
    (\<exists>m'. insert_all (Unordered_Map 10 id) (map (\<lambda>k. (k, k + 100)) [0..<11]) = Some (Inr (), m') \<and>
       buckets_number m' = 20 \<and> size_um m' = 11 \<and>
       (\<forall>kv\<in>set (map (\<lambda>k. (k, k + 100)) [0..<11]).
          \<exists>p. find_um m' (fst kv) = Some (Inr p) \<and> deref m' p = Some kv)))"
proof -
  let ?kvs = "map (\<lambda>k. (k, k + 100)) [0..<11] :: (nat \<times> nat) list"
  obtain m1 where m1: "insert_um two_in_three (1, 101) = Some (Inr 4, m1)"
    using two_in_three_insert_1(1,2) by (cases "insert_um two_in_three (1, 101)") auto
  note t = load_factor_after_insert[where m = two_in_three and N = 1 and kv = "(1, 101)"
        and it = 4 and m' = m1 and kvs = ?kvs and h = id]
  have h1: "invariant two_in_three \<and> max_load_factor two_in_three = real 1 \<and> (1::nat) \<le> 1 \<and>
      real (size_um two_in_three) \<le>
        max_load_factor two_in_three * real (buckets_number two_in_three) \<and>
      insert_um two_in_three (1, 101) = Some (Inr 4, m1)"
    using two_in_three_invariant two_in_three_insert_1(3,4) m1 by blast
  have h2: "distinct (map fst ?kvs) \<and> length ?kvs = 11"
    using two_in_three_insert_1(5,6) by blast
  from t h1 have c1: "real (size_um m1) / real (buckets_number m1) \<le> max_load_factor m1 \<and>
      buckets_number m1 =
        (if max_load_factor two_in_three \<le> real (size_um m1) / real (buckets_number two_in_three)
         then 2 * buckets_number two_in_three else buckets_number two_in_three)"
    by blast
  from t h2 have c2: "\<exists>m'. insert_all (Unordered_Map 10 id) ?kvs = Some (Inr (), m') \<and>
       buckets_number m' = 20 \<and> size_um m' = 11 \<and>
       (\<forall>kv\<in>set ?kvs. \<exists>p. find_um m' (fst kv) = Some (Inr p) \<and> deref m' p = Some kv)"
    by blast
  from h1 c1 have "\<exists>m'. invariant two_in_three \<and> max_load_factor two_in_three = real 1 \<and>
      (1::nat) \<le> 1 \<and>
      real (size_um two_in_three) \<le>
        max_load_factor two_in_three * real (buckets_number two_in_three) \<and>
      insert_um two_in_three (1, 101) = Some (Inr 4, m') \<and>
      real (size_um m') / real (buckets_number m') \<le> max_load_factor m' \<and>
      buckets_number m' =
        (if max_load_factor two_in_three \<le> real (size_um m') / real (buckets_number two_in_three)
         then 2 * buckets_number two_in_three else buckets_number two_in_three)"
    by blast
  with h2 c2 show ?thesis by blast
qed

section \<open>Clearing\<close>

text \<open>
  C9: \<^verbatim>\<open>clear\<close> returns without failure; afterwards the size is 0, \<^verbatim>\<open>begin()\<close> is
  \<^verbatim>\<open>end()\<close>, and the bucket array and the bucket count are as many as before; on an
  empty container it returns the container as it was, field by field; hence clearing
  the cleared container changes nothing. (A container that was moved from is outside
  the invariant: it may only be destroyed or assigned to.)
\<close>

theorem clear_properties:
  "invariant m \<longrightarrow>
     (\<exists>m'. clear m = Some (Inr (), m') \<and> size_um m' = 0 \<and> begin_um m' = Some (end_um m') \<and>
        buckets_number m' = buckets_number m \<and>
        (\<exists>bs. buckets m' = Some bs \<and> length bs = buckets_number m) \<and>
        (empty_um m \<longrightarrow> m' = m) \<and> clear m' = Some (Inr (), m') \<and> invariant m')"
proof
  assume i: "invariant m"
  from inv_clear[OF i] obtain m' where
    r0: "clear m = Some (Inr (), m') \<and> invariant m' \<and> traversal m' = Some [] \<and>
           m_size m' = 0 \<and> buckets_count m' = buckets_count m \<and>
           (\<exists>bs. buckets m' = Some bs \<and> length bs = buckets_count m) \<and>
           (m_size m = 0 \<longrightarrow> m' = m)" ..
  then have r: "clear m = Some (Inr (), m')" "invariant m'" "traversal m' = Some []"
      "m_size m' = 0" "buckets_count m' = buckets_count m"
      "\<exists>bs. buckets m' = Some bs \<and> length bs = buckets_count m"
      "m_size m = 0 \<longrightarrow> m' = m"
    by simp_all
  from inv_clear[OF r(2)] obtain m'' where
    r1: "clear m' = Some (Inr (), m'') \<and> invariant m'' \<and> traversal m'' = Some [] \<and>
           m_size m'' = 0 \<and> buckets_count m'' = buckets_count m' \<and>
           (\<exists>bs. buckets m'' = Some bs \<and> length bs = buckets_count m') \<and>
           (m_size m' = 0 \<longrightarrow> m'' = m')" ..
  then have "clear m' = Some (Inr (), m'')" "m_size m' = 0 \<longrightarrow> m'' = m'"
    by simp_all
  with r(4) have again: "clear m' = Some (Inr (), m')" by simp
  have b: "begin_um m' = Some (end_um m')"
    using r(3) by (simp add: traversal_Some_iff begin_um_def end_um_def)
  have e: "empty_um m \<longrightarrow> m' = m" using r(7) unfolding empty_um_def .
  have s: "size_um m' = 0" "buckets_number m' = buckets_number m"
    "\<exists>bs. buckets m' = Some bs \<and> length bs = buckets_number m"
    using r(4,5,6) unfolding size_um_def buckets_number_def by simp_all
  show "\<exists>m'. clear m = Some (Inr (), m') \<and> size_um m' = 0 \<and> begin_um m' = Some (end_um m') \<and>
        buckets_number m' = buckets_number m \<and>
        (\<exists>bs. buckets m' = Some bs \<and> length bs = buckets_number m) \<and>
        (empty_um m \<longrightarrow> m' = m) \<and> clear m' = Some (Inr (), m') \<and> invariant m'"
    by (intro exI[of _ m'] conjI) (rule r(1) s b e again r(2))+
qed

theorem clear_properties_witness:
  "invariant two_in_three \<and>
     (\<exists>m'. clear two_in_three = Some (Inr (), m') \<and> size_um m' = 0 \<and>
        begin_um m' = Some (end_um m') \<and>
        buckets_number m' = buckets_number two_in_three \<and>
        (\<exists>bs. buckets m' = Some bs \<and> length bs = buckets_number two_in_three) \<and>
        (empty_um two_in_three \<longrightarrow> m' = two_in_three) \<and> clear m' = Some (Inr (), m') \<and>
        invariant m')"
  using clear_properties[of two_in_three] two_in_three_invariant
  by (intro conjI) (assumption, erule (1) mp)

section \<open>The position returned by an insertion\<close>

text \<open>
  C10: an insertion of a key that the container does not hold, into at least one
  bucket, succeeds; the position a successful insertion returns dereferences, in the
  container after the insertion (and after the rehash, when the insertion triggered
  one), to the inserted pair; the nodes that were in the traversal before are all in
  the traversal after, at the same addresses and with the same pairs, together with the
  new node and nothing else.
\<close>

theorem insert_returns_position:
  "invariant m \<longrightarrow>
     (0 < buckets_count m \<and> lookup m k = None \<longrightarrow>
        (\<exists>it m'. insert_um m (k, v) = Some (Inr it, m'))) \<and>
     (insert_um m (k, v) = Some (Inr it, m') \<longrightarrow>
        deref m' it = Some (k, v) \<and>
        (\<forall>xs. traversal m = Some xs \<longrightarrow>
           it \<notin> set xs \<and> (\<forall>p\<in>set xs. deref m' p = deref m p) \<and>
           (\<exists>xs'. traversal m' = Some xs' \<and> set xs' = insert it (set xs))) \<and>
        buckets_number m' =
          (if max_load_factor m \<le> real (size_um m' div buckets_number m)
           then buckets_number m * 2 else buckets_number m))"
proof (intro impI conjI)
  assume i: "invariant m"
  {
    assume "0 < buckets_count m \<and> lookup m k = None"
    then have "0 < buckets_count m" "lookup m k = None" by simp_all
    from inv_insert_new[OF i this, of v]
    show "\<exists>it m'. insert_um m (k, v) = Some (Inr it, m')" by blast
  }
  assume r: "insert_um m (k, v) = Some (Inr it, m')"
  have n: "0 < buckets_count m"
    using r insert_zero[of m "(k, v)"] by (cases "buckets_count m = 0") auto
  have l: "lookup m k = None"
    using r inv_insert_dup[OF i, of k v] by (cases "lookup m k") auto
  from inv_insert_new[OF i n l, of v] r
  have *: "it = fresh m" "node_value m' = (node_value m)(fresh m \<mapsto> (k, v))"
    "\<forall>xs. traversal m = Some xs \<longrightarrow> fresh m \<notin> set xs \<and>
           (\<exists>xs'. traversal m' = Some xs' \<and> set xs' = insert (fresh m) (set xs))"
    "m_size m' = Suc (m_size m)"
    "buckets_count m' =
       (if m_max_load_factor m \<le> real (Suc (m_size m) div buckets_count m)
        then buckets_count m * 2 else buckets_count m)"
    by auto
  show "deref m' it = Some (k, v)" by (simp add: deref_def *)
  show "\<forall>xs. traversal m = Some xs \<longrightarrow>
           it \<notin> set xs \<and> (\<forall>p\<in>set xs. deref m' p = deref m p) \<and>
           (\<exists>xs'. traversal m' = Some xs' \<and> set xs' = insert it (set xs))"
    using *(3) unfolding *(1) deref_def *(2) by auto
  show "buckets_number m' =
          (if max_load_factor m \<le> real (size_um m' div buckets_number m)
           then buckets_number m * 2 else buckets_number m)"
    using *(4,5) by (simp add: buckets_number_def max_load_factor_def size_um_def)
qed

lemma two_in_three_insert_9:
  "lookup two_in_three 9 = None"
  "insert_um two_in_three (9, 109) \<noteq> None"
  "fst (the (insert_um two_in_three (9, 109))) = Inr 4"
  "buckets_number (snd (the (insert_um two_in_three (9, 109)))) = 6"
  by code_simp+

theorem insert_returns_position_witness:
  "\<exists>m'. invariant two_in_three \<and> 0 < buckets_count two_in_three \<and>
     lookup two_in_three 9 = None \<and>
     insert_um two_in_three (9, 109) = Some (Inr 4, m') \<and>
     deref m' 4 = Some (9, 109) \<and> buckets_number m' = 6 \<and>
     (\<forall>xs. traversal two_in_three = Some xs \<longrightarrow>
        4 \<notin> set xs \<and> (\<forall>p\<in>set xs. deref m' p = deref two_in_three p) \<and>
        (\<exists>xs'. traversal m' = Some xs' \<and> set xs' = insert 4 (set xs)))"
proof -
  obtain m1 where m1: "insert_um two_in_three (9, 109) = Some (Inr 4, m1)"
    using two_in_three_insert_9(2,3) by (cases "insert_um two_in_three (9, 109)") auto
  have "buckets_number m1 = 6" using two_in_three_insert_9(4) m1 by simp
  then show ?thesis
    using insert_returns_position[where m = two_in_three and k = 9 and v = 109 and it = 4
        and m' = m1]
      two_in_three_invariant two_in_three_facts(1) two_in_three_insert_9(1) m1
    by (intro exI[of _ m1]) simp
qed

end
